theory Spec2Isabelle
  imports Complex_Main "HOL-Library.Log_Nat" "HOL-Library.Sublist"
begin

section \<open>JavaScript numbers\<close>

text \<open>
  A JavaScript Number is an IEEE 754 binary64 value. The finite ones are modelled by the
  rationals they denote; every arithmetic operation computes the exact result and rounds it
  to the nearest double, ties to the even significand. \<open>expo x\<close> is the binary exponent of a
  positive rational (\<open>2 ^ expo x \<le> x < 2 ^ (expo x + 1)\<close>), \<open>ulp x\<close> the spacing of the doubles
  around \<open>x\<close> (53 significant bits, subnormals below \<open>2 ^ - 1022\<close>), and \<open>fl\<close> the rounding.
  Overflow to \<open>Infinity\<close> is left out: no value computed by this program exceeds \<open>2 ^ 14\<close>.
\<close>

definition rhe :: "rat \<Rightarrow> int" where
  "rhe y = (let n = \<lfloor>y\<rfloor>; f = y - of_int n
            in if f < 1/2 then n else if 1/2 < f then n + 1
               else if even n then n else n + 1)"

definition expo :: "rat \<Rightarrow> int" where
  "expo x = (let (p, q) = quotient_of x; d = bitlen p - bitlen q
             in if 2 powi d \<le> x then d else d - 1)"

definition ulp :: "rat \<Rightarrow> rat" where
  "ulp a = 2 powi (max (expo a) (- 1022) - 52)"

definition fl :: "rat \<Rightarrow> rat" where
  "fl x = (if x = 0 then 0
           else let a = \<bar>x\<bar>; u = ulp a
                in sgn x * of_int (rhe (a / u)) * u)"

definition is_double :: "rat \<Rightarrow> bool" where
  "is_double x = (fl x = x)"

text \<open>
  A decimal literal of the source denotes the double nearest to it: \<open>lit n d\<close> is the Number
  nearest to the fraction \<open>n / d\<close>, so \<open>lit 8 10\<close> is the literal \<open>0.8\<close>. Literals that are
  doubles themselves (\<open>0.5\<close>, \<open>2\<close>, \<open>100\<close>, \<open>5000\<close>) are written as they are.
\<close>

definition lit :: "int \<Rightarrow> int \<Rightarrow> rat" where
  "lit n d = fl (of_int n / of_int d)"

text \<open>The operators \<open>+\<close> and \<open>*\<close> on Numbers.\<close>

definition js_add :: "rat \<Rightarrow> rat \<Rightarrow> rat" where
  "js_add x y = fl (x + y)"

definition js_mul :: "rat \<Rightarrow> rat \<Rightarrow> rat" where
  "js_mul x y = fl (x * y)"

text \<open>
  \<open>Math.random()\<close> returns a Number greater than or equal to 0 and less than 1. The draws are
  inputs of the model: a function from the index of the call to the value returned.
\<close>

definition is_draw :: "rat \<Rightarrow> bool" where
  "is_draw r = (is_double r \<and> 0 \<le> r \<and> r < 1)"

subsection \<open>Rounding to an integer\<close>

lemma rhe_of_int: "rhe (of_int n) = n"
  by (simp add: rhe_def)

lemma rhe_ge_floor: "\<lfloor>y\<rfloor> \<le> rhe y"
  by (simp add: rhe_def Let_def)

lemma rhe_le_floor1: "rhe y \<le> \<lfloor>y\<rfloor> + 1"
  by (simp add: rhe_def Let_def)

lemma rhe_lower:
  assumes "of_int n \<le> y"
  shows "n \<le> rhe y"
proof -
  have "n \<le> \<lfloor>y\<rfloor>" using assms by (simp add: le_floor_iff)
  then show ?thesis using rhe_ge_floor[of y] by linarith
qed

lemma rhe_upper_strict:
  assumes "y < of_int n + 1/2"
  shows "rhe y \<le> n"
proof (cases "\<lfloor>y\<rfloor> < n")
  case True
  then show ?thesis using rhe_le_floor1[of y] by linarith
next
  case False
  have "\<lfloor>y\<rfloor> \<le> n" using assms by (simp add: floor_le_iff)
  with False have "\<lfloor>y\<rfloor> = n" by simp
  then show ?thesis using assms by (simp add: rhe_def Let_def)
qed

lemma rhe_upper: "y \<le> of_int n \<Longrightarrow> rhe y \<le> n"
  by (rule rhe_upper_strict) simp

subsection \<open>The binary exponent\<close>

lemma pow2_less_cancel: "(2::rat) powi a < 2 powi b \<Longrightarrow> a < b"
proof (rule ccontr)
  assume lt: "(2::rat) powi a < 2 powi b" and "\<not> a < b"
  then have "b \<le> a" by simp
  then have "(2::rat) powi b \<le> 2 powi a" by (rule power_int_increasing) simp
  with lt show False by simp
qed

lemma pow2_bitlen:
  assumes "0 < (p::int)"
  shows "(2::rat) powi (bitlen p - 1) \<le> of_int p" and "of_int p < (2::rat) powi bitlen p"
proof -
  from assms have b1: "1 \<le> bitlen p" by (auto simp: bitlen_alt_def)
  have lo: "2 ^ nat (bitlen p - 1) \<le> p" and hi: "p < 2 ^ nat (bitlen p)"
    using bitlen_bounds[OF assms] by auto
  have "(of_int (2 ^ nat (bitlen p - 1)) :: rat) \<le> of_int p"
    using lo by (simp only: of_int_le_iff)
  then show "(2::rat) powi (bitlen p - 1) \<le> of_int p"
    using b1 by (simp add: power_int_def)
  have "(of_int p :: rat) < of_int (2 ^ nat (bitlen p))"
    using hi by (simp only: of_int_less_iff)
  then show "of_int p < (2::rat) powi bitlen p"
    using b1 by (simp add: power_int_def)
qed

lemma expo_bounds:
  assumes "0 < x"
  shows "2 powi expo x \<le> x" and "x < 2 powi (expo x + 1)"
proof -
  obtain p q where pq: "quotient_of x = (p, q)" by (cases "quotient_of x")
  have q: "0 < q" using pq by (rule quotient_of_denom_pos)
  have x: "x = of_int p / of_int q" using pq by (rule quotient_of_div)
  have p: "0 < p" using assms q x by (simp add: zero_less_divide_iff)
  define d where "d = bitlen p - bitlen q"
  have qr: "(0::rat) < of_int q" using q by simp
  have "x < 2 powi bitlen p / 2 powi (bitlen q - 1)"
  proof -
    have "x < 2 powi bitlen p / of_int q"
      unfolding x using pow2_bitlen(2)[OF p] qr by (simp add: divide_strict_right_mono)
    also have "\<dots> \<le> 2 powi bitlen p / 2 powi (bitlen q - 1)"
      using pow2_bitlen(1)[OF q] qr by (intro divide_left_mono) (auto intro!: mult_pos_pos)
    finally show ?thesis .
  qed
  then have up: "x < 2 powi (d + 1)"
    by (simp add: d_def power_int_diff power_int_add)
  have "2 powi (bitlen p - 1) / 2 powi bitlen q < x"
  proof -
    have "(2::rat) powi (bitlen p - 1) / 2 powi bitlen q < 2 powi (bitlen p - 1) / of_int q"
      using pow2_bitlen(2)[OF q] qr by (intro divide_strict_left_mono) (auto intro!: mult_pos_pos)
    also have "\<dots> \<le> x"
      unfolding x using pow2_bitlen(1)[OF p] qr by (simp add: divide_right_mono)
    finally show ?thesis .
  qed
  then have lo: "2 powi (d - 1) < x"
    by (simp add: d_def power_int_diff power_int_add)
  have e: "expo x = (if 2 powi d \<le> x then d else d - 1)"
    by (simp add: expo_def pq d_def Let_def)
  show "2 powi expo x \<le> x" using lo by (simp add: e)
  show "x < 2 powi (expo x + 1)" using up by (simp add: e)
qed

lemma expo_unique:
  assumes "2 powi e \<le> x" "x < 2 powi (e + 1)"
  shows "expo x = e"
proof -
  have "(0::rat) < 2 powi e" by simp
  then have x: "0 < x" using assms(1) by linarith
  have "(2::rat) powi e < 2 powi (expo x + 1)"
    using assms(1) expo_bounds(2)[OF x] by linarith
  then have a: "e < expo x + 1" by (rule pow2_less_cancel)
  have "(2::rat) powi expo x < 2 powi (e + 1)"
    using assms(2) expo_bounds(1)[OF x] by linarith
  then have "expo x < e + 1" by (rule pow2_less_cancel)
  with a show ?thesis by simp
qed

lemma expo_mono:
  assumes "0 < x" "x \<le> y"
  shows "expo x \<le> expo y"
proof -
  have y: "0 < y" using assms by simp
  have "(2::rat) powi expo x < 2 powi (expo y + 1)"
    using expo_bounds(1)[OF assms(1)] expo_bounds(2)[OF y] assms(2) by linarith
  then have "expo x < expo y + 1" by (rule pow2_less_cancel)
  then show ?thesis by simp
qed

lemma pow2_split_top: "(2::rat) powi (e + 1) = 2 ^ 53 * 2 powi (e - 52)"
proof -
  have "(2::rat) powi (e + 1) = 2 powi (53 + (e - 52))"
    by (rule arg_cong[where f = "\<lambda>k. 2 powi k"]) simp
  also have "\<dots> = 2 powi 53 * 2 powi (e - 52)" by (rule power_int_add) simp
  finally show ?thesis by simp
qed

lemma pow2_split_bot: "(2::rat) powi e = 2 ^ 52 * 2 powi (e - 52)"
proof -
  have "(2::rat) powi e = 2 powi (52 + (e - 52))"
    by (rule arg_cong[where f = "\<lambda>k. 2 powi k"]) simp
  also have "\<dots> = 2 powi 52 * 2 powi (e - 52)" by (rule power_int_add) simp
  finally show ?thesis by simp
qed

subsection \<open>Rounding never crosses a double\<close>

lemma ulp_pos: "0 < ulp x"
  by (simp add: ulp_def)

lemma fl_pos: "0 < x \<Longrightarrow> fl x = of_int (rhe (x / ulp x)) * ulp x"
  by (simp add: fl_def Let_def)

lemma fl_nonneg:
  assumes "0 \<le> x"
  shows "0 \<le> fl x"
proof (cases "x = 0")
  case True
  then show ?thesis by (simp add: fl_def)
next
  case False
  with assms have x: "0 < x" by simp
  have "0 \<le> x / ulp x" using x ulp_pos[of x] by simp
  then have "0 \<le> rhe (x / ulp x)" using rhe_lower[of 0 "x / ulp x"] by simp
  then show ?thesis using ulp_pos[of x] by (simp add: fl_pos[OF x])
qed

lemma fl_le_top:
  assumes "0 < x"
  shows "fl x \<le> 2 powi (max (expo x) (- 1022) + 1)"
proof -
  define e where "e = max (expo x) (- 1022)"
  have u: "ulp x = 2 powi (e - 52)" by (simp add: ulp_def e_def)
  have "x < 2 powi (expo x + 1)" by (rule expo_bounds(2)[OF assms])
  also have "\<dots> \<le> 2 powi (e + 1)" by (rule power_int_increasing) (simp_all add: e_def)
  finally have "x < 2 ^ 53 * ulp x" by (simp add: u pow2_split_top)
  then have "x / ulp x < of_int (2 ^ 53)" using ulp_pos[of x] by (simp add: pos_divide_less_eq)
  then have "rhe (x / ulp x) \<le> 2 ^ 53" by (intro rhe_upper) simp
  then have "(of_int (rhe (x / ulp x)) :: rat) \<le> of_int (2 ^ 53)" by (simp only: of_int_le_iff)
  then have "of_int (rhe (x / ulp x)) * ulp x \<le> 2 ^ 53 * ulp x"
    using ulp_pos[of x] by simp
  then show ?thesis by (simp add: fl_pos[OF assms] u pow2_split_top e_def)
qed

lemma fl_ge_bot:
  assumes "0 < x" "- 1022 \<le> expo x"
  shows "2 powi expo x \<le> fl x"
proof -
  have u: "ulp x = 2 powi (expo x - 52)" using assms(2) by (simp add: ulp_def max_def)
  have "2 ^ 52 * ulp x \<le> x"
    using expo_bounds(1)[OF assms(1)] by (simp add: u pow2_split_bot[of "expo x"])
  then have "of_int (2 ^ 52) \<le> x / ulp x" using ulp_pos[of x] by (simp add: pos_le_divide_eq)
  then have "2 ^ 52 \<le> rhe (x / ulp x)" by (rule rhe_lower)
  then have "(of_int (2 ^ 52) :: rat) \<le> of_int (rhe (x / ulp x))" by (simp only: of_int_le_iff)
  then have "2 ^ 52 * ulp x \<le> of_int (rhe (x / ulp x)) * ulp x"
    using ulp_pos[of x] by simp
  then show ?thesis by (simp add: fl_pos[OF assms(1)] u pow2_split_bot[of "expo x"])
qed

lemma double_grid:
  assumes "0 < b" "is_double b"
  shows "b / ulp b = of_int (rhe (b / ulp b))"
proof -
  have "of_int (rhe (b / ulp b)) * ulp b = b"
    using assms by (simp add: is_double_def fl_pos)
  then show ?thesis using ulp_pos[of b] by (simp add: field_simps)
qed

lemma fl_le_double:
  assumes "0 \<le> x" "x \<le> b" "is_double b"
  shows "fl x \<le> b"
proof (cases "x = 0")
  case True
  then show ?thesis using assms by (simp add: fl_def)
next
  case False
  with assms have x: "0 < x" and b: "0 < b" by simp_all
  define e where "e = max (expo x) (- 1022)"
  define eb where "eb = max (expo b) (- 1022)"
  have le: "e \<le> eb" using expo_mono[OF x assms(2)] by (simp add: e_def eb_def)
  show ?thesis
  proof (cases "e = eb")
    case True
    then have u: "ulp x = ulp b" by (simp add: ulp_def e_def eb_def)
    have "x / ulp x \<le> b / ulp b" using assms(2) ulp_pos[of b] by (simp add: u divide_right_mono)
    then have "x / ulp x \<le> of_int (rhe (b / ulp b))" using double_grid[OF b assms(3)] by simp
    then have "rhe (x / ulp x) \<le> rhe (b / ulp b)" by (rule rhe_upper)
    then have "(of_int (rhe (x / ulp x)) :: rat) \<le> of_int (rhe (b / ulp b))"
      by (simp only: of_int_le_iff)
    then have "of_int (rhe (x / ulp x)) * ulp x \<le> of_int (rhe (b / ulp b)) * ulp b"
      using ulp_pos[of b] by (simp add: u)
    also have "\<dots> = b" using assms(3) b by (simp add: is_double_def fl_pos)
    finally show ?thesis by (simp add: fl_pos[OF x])
  next
    case False
    with le have lt: "e + 1 \<le> eb" by simp
    then have eb_true: "eb = expo b" by (auto simp: e_def eb_def max_def split: if_splits)
    have "fl x \<le> 2 powi (e + 1)" using fl_le_top[OF x] by (simp add: e_def)
    also have "\<dots> \<le> 2 powi eb" using lt by (intro power_int_increasing) simp_all
    also have "\<dots> \<le> b" using expo_bounds(1)[OF b] by (simp add: eb_true)
    finally show ?thesis .
  qed
qed

lemma double_le_fl:
  assumes "0 \<le> a" "a \<le> x" "is_double a"
  shows "a \<le> fl x"
proof (cases "a = 0")
  case True
  then show ?thesis using assms fl_nonneg[of x] by simp
next
  case False
  with assms have a: "0 < a" and x: "0 < x" by simp_all
  define e where "e = max (expo x) (- 1022)"
  define ea where "ea = max (expo a) (- 1022)"
  have le: "ea \<le> e" using expo_mono[OF a assms(2)] by (simp add: e_def ea_def)
  show ?thesis
  proof (cases "ea = e")
    case True
    then have u: "ulp a = ulp x" by (simp add: ulp_def e_def ea_def)
    have "a / ulp a \<le> x / ulp x" using assms(2) ulp_pos[of x] by (simp add: u divide_right_mono)
    then have "of_int (rhe (a / ulp a)) \<le> x / ulp x" using double_grid[OF a assms(3)] by simp
    then have "rhe (a / ulp a) \<le> rhe (x / ulp x)" by (rule rhe_lower)
    then have "(of_int (rhe (a / ulp a)) :: rat) \<le> of_int (rhe (x / ulp x))"
      by (simp only: of_int_le_iff)
    then have "of_int (rhe (a / ulp a)) * ulp a \<le> of_int (rhe (x / ulp x)) * ulp x"
      using ulp_pos[of x] by (simp add: u)
    moreover have "of_int (rhe (a / ulp a)) * ulp a = a"
      using assms(3) a by (simp add: is_double_def fl_pos)
    ultimately show ?thesis by (simp add: fl_pos[OF x])
  next
    case False
    with le have lt: "ea + 1 \<le> e" by simp
    then have e_true: "e = expo x" "- 1022 \<le> expo x"
      by (auto simp: e_def ea_def max_def split: if_splits)
    have "a < 2 powi (expo a + 1)" by (rule expo_bounds(2)[OF a])
    also have "\<dots> \<le> 2 powi (ea + 1)" by (intro power_int_increasing) (simp_all add: ea_def)
    also have "\<dots> \<le> 2 powi e" using lt by (intro power_int_increasing) simp_all
    also have "\<dots> \<le> fl x" using fl_ge_bot[OF x e_true(2)] by (simp add: e_true(1))
    finally show ?thesis by simp
  qed
qed

text \<open>Within one binade the rounded value is read off the grid.\<close>

lemma fl_le_grid:
  assumes "2 powi k \<le> x" "x < 2 powi (k + 1)" "- 1022 \<le> k"
    and "x < (of_int n + 1/2) * 2 powi (k - 52)"
  shows "fl x \<le> of_int n * 2 powi (k - 52)"
proof -
  have "(0::rat) < 2 powi k" by simp
  then have x: "0 < x" using assms(1) by linarith
  have ex: "expo x = k" using assms(1,2) by (rule expo_unique)
  have u: "ulp x = 2 powi (k - 52)" using assms(3) by (simp add: ulp_def ex)
  have "x / ulp x < of_int n + 1/2" using assms(4) ulp_pos[of x] by (simp add: u pos_divide_less_eq)
  then have "rhe (x / ulp x) \<le> n" by (rule rhe_upper_strict)
  then have "(of_int (rhe (x / ulp x)) :: rat) \<le> of_int n" by (simp only: of_int_le_iff)
  then have "of_int (rhe (x / ulp x)) * ulp x \<le> of_int n * ulp x" using ulp_pos[of x] by simp
  then show ?thesis by (simp add: fl_pos[OF x] u)
qed

subsection \<open>The largest draw\<close>

lemma draw_le_max:
  assumes "is_draw r"
  shows "r \<le> 1 - 1 / 2 ^ 53"
proof (cases "r = 0")
  case True
  then show ?thesis by simp
next
  case False
  with assms have r: "0 < r" and r1: "r < 1" and d: "is_double r" by (simp_all add: is_draw_def)
  define e where "e = max (expo r) (- 1022)"
  have "(2::rat) powi expo r < 2 powi 0" using expo_bounds(1)[OF r] r1 by simp
  then have "expo r < 0" by (rule pow2_less_cancel)
  then have e: "e \<le> - 1" by (simp add: e_def)
  show ?thesis
  proof (cases "e = - 1")
    case True
    then have u: "ulp r = 1 / 2 ^ 53" by (simp add: ulp_def e_def power_int_minus_divide)
    have g: "r / ulp r = of_int (rhe (r / ulp r))" by (rule double_grid[OF r d])
    have "r / ulp r < of_int (2 ^ 53)" using r1 by (simp add: u)
    then have "(of_int (rhe (r / ulp r)) :: rat) < of_int (2 ^ 53)" using g by simp
    then have "rhe (r / ulp r) < 2 ^ 53" by (simp only: of_int_less_iff)
    then have "rhe (r / ulp r) \<le> 2 ^ 53 - 1" by simp
    then have "(of_int (rhe (r / ulp r)) :: rat) \<le> of_int (2 ^ 53 - 1)" by (simp only: of_int_le_iff)
    then have "r / ulp r \<le> 2 ^ 53 - 1" using g by simp
    then show ?thesis by (simp add: u field_simps)
  next
    case False
    with e have lt: "e + 1 \<le> - 1" by simp
    have "r < 2 powi (expo r + 1)" by (rule expo_bounds(2)[OF r])
    also have "\<dots> \<le> 2 powi (e + 1)" by (intro power_int_increasing) (simp_all add: e_def)
    also have "\<dots> \<le> 2 powi (- 1)" using lt by (intro power_int_increasing) simp_all
    finally show ?thesis by (simp add: power_int_minus_divide)
  qed
qed

subsection \<open>Some doubles\<close>

lemma double_half: "is_double (1/2)"
  unfolding is_double_def by code_simp

lemma double_1: "is_double 1"
  unfolding is_double_def by code_simp

lemma double_64: "is_double 64"
  unfolding is_double_def by code_simp

lemma double_5000: "is_double 5000"
  unfolding is_double_def by code_simp

lemma double_8192: "is_double 8192"
  unfolding is_double_def by code_simp

lemma double_delay_top: "is_double (15000 - 1 / 2 ^ 39)"
  unfolding is_double_def by code_simp

lemma double_two_pred: "is_double (2 - 1 / 2 ^ 52)"
  unfolding is_double_def by code_simp

lemma double_half_pred: "is_double (1/2 - 1 / 2 ^ 54)"
  unfolding is_double_def by code_simp

lemma lit_tenth: "lit 1 10 = 3602879701896397 / 2 ^ 55"
  unfolding lit_def by code_simp

lemma lit_six_tenths: "lit 6 10 = 5404319552844595 / 2 ^ 53"
  unfolding lit_def by code_simp

lemma lit_three_tenths: "lit 3 10 = 5404319552844595 / 2 ^ 54"
  unfolding lit_def by code_simp

lemma lit_eight_tenths: "lit 8 10 = 3602879701896397 / 2 ^ 52"
  unfolding lit_def by code_simp

lemma double_lit_tenth: "is_double (lit 1 10)"
  unfolding is_double_def lit_def by code_simp

lemma double_lit_six_tenths: "is_double (lit 6 10)"
  unfolding is_double_def lit_def by code_simp

lemma draw_half: "is_draw (1/2)"
  unfolding is_draw_def is_double_def by code_simp

lemma draw_top: "is_draw (1 - 1 / 2 ^ 53)"
  unfolding is_draw_def is_double_def by code_simp

section \<open>The rain particle renderer (\<open>RainEffect\<close>)\<close>

text \<open>
  The component receives \<open>intensity\<close> as a property. Its TypeScript type admits three strings,
  but the \<open>switch\<close> has a \<open>default\<close> branch for any other run-time value, so the property is
  a string here. \<open>drops\<close> builds one record for each index below \<open>dropCount\<close>; the callback
  calls \<open>Math.random()\<close> four times, in the order of the fields, so drop \<open>i\<close> consumes the
  draws \<open>4 * i\<close> to \<open>4 * i + 3\<close> of the batch. The fields \<open>left\<close>, \<open>animationDuration\<close> and
  \<open>animationDelay\<close> are the numbers that the source prints in front of the unit (\<open>%\<close> or \<open>s\<close>).
\<close>

definition dropCount :: "string \<Rightarrow> nat" where
  "dropCount intensity =
     (if intensity = ''light'' then 50
      else if intensity = ''medium'' then 150
      else if intensity = ''heavy'' then 400
      else 100)"

record raindrop =
  id' :: nat
  left :: rat
  animationDuration :: rat
  animationDelay :: rat
  opacity :: rat

definition mkDrop :: "(nat \<Rightarrow> rat) \<Rightarrow> nat \<Rightarrow> raindrop" where
  "mkDrop random i =
     \<lparr> id' = i,
       left = js_mul (random (4 * i)) 100,
       animationDuration = js_add (1/2) (js_mul (random (4 * i + 1)) (1/2)),
       animationDelay = js_mul (random (4 * i + 2)) 2,
       opacity = js_add (js_mul (random (4 * i + 3)) (1/2)) (lit 1 10) \<rparr>"

definition drops :: "(nat \<Rightarrow> rat) \<Rightarrow> string \<Rightarrow> raindrop list" where
  "drops random intensity = map (mkDrop random) [0..<dropCount intensity]"

text \<open>Two batches of draws used as test inputs: every draw the largest double below 1, and
  every draw one half.\<close>

definition topDraws :: "nat \<Rightarrow> rat" where
  "topDraws k = 1 - 1 / 2 ^ 53"

definition halfDraws :: "nat \<Rightarrow> rat" where
  "halfDraws k = 1/2"

lemma left_range:
  assumes "is_draw r"
  shows "0 \<le> js_mul r 100" and "js_mul r 100 < 100"
proof -
  have r0: "0 \<le> r * 100" using assms by (simp add: is_draw_def)
  show "0 \<le> js_mul r 100" unfolding js_mul_def by (rule fl_nonneg[OF r0])
  show "js_mul r 100 < 100"
  proof (cases "r * 100 < 64")
    case True
    then have "fl (r * 100) \<le> 64" using r0 double_64 by (intro fl_le_double) simp_all
    then show ?thesis by (simp add: js_mul_def)
  next
    case False
    have r: "r \<le> 1 - 1 / 2 ^ 53" by (rule draw_le_max[OF assms])
    have "fl (r * 100) \<le> of_int (100 * 2 ^ 46 - 1) * 2 powi (6 - 52)"
    proof (rule fl_le_grid)
      show "2 powi 6 \<le> r * 100" using False by simp
      show "r * 100 < 2 powi (6 + 1)" using r by simp
      show "- 1022 \<le> (6::int)" by simp
      show "r * 100 < (of_int (100 * 2 ^ 46 - 1) + 1/2) * 2 powi (6 - 52)"
        using r by (simp add: power_int_minus_divide)
    qed
    then show ?thesis by (simp add: js_mul_def power_int_minus_divide)
  qed
qed

lemma half_range:
  assumes "is_draw r"
  shows "0 \<le> js_mul r (1/2)" and "js_mul r (1/2) \<le> 1/2 - 1 / 2 ^ 54"
proof -
  have r0: "0 \<le> r * (1/2)" using assms by (simp add: is_draw_def)
  show "0 \<le> js_mul r (1/2)" unfolding js_mul_def by (rule fl_nonneg[OF r0])
  have "r * (1/2) \<le> 1/2 - 1 / 2 ^ 54" using draw_le_max[OF assms] by simp
  then show "js_mul r (1/2) \<le> 1/2 - 1 / 2 ^ 54"
    unfolding js_mul_def using r0 double_half_pred by (intro fl_le_double)
qed

lemma duration_range:
  assumes "is_draw r"
  shows "1/2 \<le> js_add (1/2) (js_mul r (1/2))" and "js_add (1/2) (js_mul r (1/2)) \<le> 1"
proof -
  note h = half_range[OF assms]
  show "1/2 \<le> js_add (1/2) (js_mul r (1/2))"
    unfolding js_add_def using h(1) double_half by (intro double_le_fl) simp_all
  have "1/2 + js_mul r (1/2) \<le> 1" using h(2) by simp
  then show "js_add (1/2) (js_mul r (1/2)) \<le> 1"
    unfolding js_add_def using h(1) double_1 by (intro fl_le_double) simp_all
qed

lemma delay_range:
  assumes "is_draw r"
  shows "0 \<le> js_mul r 2" and "js_mul r 2 < 2"
proof -
  have r0: "0 \<le> r * 2" using assms by (simp add: is_draw_def)
  show "0 \<le> js_mul r 2" unfolding js_mul_def by (rule fl_nonneg[OF r0])
  have "r * 2 \<le> 2 - 1 / 2 ^ 52" using draw_le_max[OF assms] by simp
  then have "fl (r * 2) \<le> 2 - 1 / 2 ^ 52" using r0 double_two_pred by (intro fl_le_double)
  then show "js_mul r 2 < 2" by (simp add: js_mul_def)
qed

lemma opacity_range:
  assumes "is_draw r"
  shows "lit 1 10 \<le> js_add (js_mul r (1/2)) (lit 1 10)"
    and "js_add (js_mul r (1/2)) (lit 1 10) \<le> lit 6 10"
proof -
  note h = half_range[OF assms]
  have t0: "0 \<le> lit 1 10" unfolding lit_tenth by simp
  show "lit 1 10 \<le> js_add (js_mul r (1/2)) (lit 1 10)"
    unfolding js_add_def using h(1) t0 double_lit_tenth by (intro double_le_fl) simp_all
  have "js_mul r (1/2) + lit 1 10 \<le> lit 6 10"
    using h(2) unfolding lit_tenth lit_six_tenths by simp
  then show "js_add (js_mul r (1/2)) (lit 1 10) \<le> lit 6 10"
    unfolding js_add_def using h(1) t0 double_lit_six_tenths by (intro fl_le_double) simp_all
qed

text \<open>
  Claim C6: the renderer produces exactly 50 raindrops for \<open>'light'\<close>, 150 for \<open>'medium'\<close>,
  400 for \<open>'heavy'\<close>, and 100 for any other value of the intensity.
\<close>

theorem dropCount_cases:
  "dropCount ''light'' = 50 \<and> dropCount ''medium'' = 150 \<and> dropCount ''heavy'' = 400 \<and>
   (\<forall>v. v \<noteq> ''light'' \<and> v \<noteq> ''medium'' \<and> v \<noteq> ''heavy'' \<longrightarrow> dropCount v = 100) \<and>
   (\<forall>random v. length (drops random v) = dropCount v)"
  by (simp add: dropCount_def drops_def)

theorem dropCount_cases_witness:
  "''drizzle'' \<noteq> ''light'' \<and> ''drizzle'' \<noteq> ''medium'' \<and> ''drizzle'' \<noteq> ''heavy'' \<and>
   dropCount ''drizzle'' = 100"
proof -
  have h: "''drizzle'' \<noteq> ''light'' \<and> ''drizzle'' \<noteq> ''medium'' \<and> ''drizzle'' \<noteq> ''heavy''"
    by simp
  note others = dropCount_cases[THEN conjunct2, THEN conjunct2, THEN conjunct2, THEN conjunct1,
      rule_format, of "''drizzle''"]
  have "(''drizzle'' \<noteq> ''light'' \<and> ''drizzle'' \<noteq> ''medium'' \<and> ''drizzle'' \<noteq> ''heavy'') \<and>
      dropCount ''drizzle'' = 100"
    using h others[OF h] by (rule conjI)
  then show ?thesis by (simp only: conj_assoc simp_thms)
qed

text \<open>
  Claim C7 says that the duration stays below 1.0 and the opacity below 0.6 for every draw in
  \<open>[0, 1)\<close>. At the largest draw, \<open>1 - 2 ^ - 53\<close>, the sum \<open>0.5 + r * 0.5\<close> is the tie
  \<open>1 - 2 ^ - 54\<close> and rounds to 1, and \<open>r * 0.5 + 0.1\<close> rounds to the double \<open>0.6\<close>.
\<close>

lemma hd_drops_light: "hd (drops random ''light'') = mkDrop random 0"
  by (simp add: drops_def dropCount_def upt_conv_Cons)

lemma mkDrop_top:
  "animationDuration (mkDrop topDraws 0) = 1" "opacity (mkDrop topDraws 0) = lit 6 10"
  by code_simp+

text \<open>Without rounding the half-open ranges of the claim would hold.\<close>

lemma ranges_without_rounding:
  assumes "0 \<le> (r::rat)" "r < 1"
  shows "1/2 \<le> 1/2 + r * (1/2) \<and> 1/2 + r * (1/2) < 1 \<and>
         1/10 \<le> r * (1/2) + 1/10 \<and> r * (1/2) + 1/10 < 6/10"
  using assms by simp

text \<open>
  Counterexample to claim C7 as stated: with every draw equal to \<open>1 - 2 ^ - 53\<close> the first
  raindrop has animation duration 1 and opacity equal to the Number \<open>0.6\<close>.
\<close>

theorem drops_upper_bounds_counterexample:
  "is_draw (topDraws 1) \<and> is_draw (topDraws 3) \<and>
   \<not> animationDuration (hd (drops topDraws ''light'')) < 1 \<and>
   \<not> opacity (hd (drops topDraws ''light'')) < lit 6 10"
proof -
  have a: "is_draw (topDraws k)" for k unfolding topDraws_def by (rule draw_top)
  have b: "\<not> animationDuration (hd (drops topDraws ''light'')) < 1"
    by (simp add: hd_drops_light mkDrop_top)
  have c: "\<not> opacity (hd (drops topDraws ''light'')) < lit 6 10"
    by (simp add: hd_drops_light mkDrop_top)
  show ?thesis by (intro conjI a b c)
qed

text \<open>
  Claim C7, amended: for draws in \<open>[0, 1)\<close> every raindrop has left offset in \<open>[0, 100)\<close>,
  animation duration in \<open>[0.5, 1.0]\<close>, start delay in \<open>[0, 2.0)\<close> and opacity between the
  Numbers \<open>0.1\<close> and \<open>0.6\<close>, both included; as rationals the opacity is at least \<open>1/10\<close> and
  below \<open>6/10\<close>, since the Number \<open>0.6\<close> lies below \<open>6/10\<close>.
\<close>

theorem drops_ranges:
  assumes "\<forall>k. is_draw (random k)" and "d \<in> set (drops random v)"
  shows "0 \<le> left d \<and> left d < 100 \<and>
         1/2 \<le> animationDuration d \<and> animationDuration d \<le> 1 \<and>
         0 \<le> animationDelay d \<and> animationDelay d < 2 \<and>
         lit 1 10 \<le> opacity d \<and> opacity d \<le> lit 6 10 \<and>
         1/10 \<le> opacity d \<and> opacity d < 6/10"
proof -
  from assms(2) obtain i where d: "d = mkDrop random i" by (auto simp: drops_def)
  have r: "is_draw (random k)" for k using assms(1) by simp
  have o: "lit 1 10 \<le> opacity d" "opacity d \<le> lit 6 10"
    using opacity_range[OF r] by (simp_all add: d mkDrop_def)
  have "(1/10 :: rat) \<le> lit 1 10" "lit 6 10 < (6/10 :: rat)"
    unfolding lit_tenth lit_six_tenths by simp_all
  with o have o': "1/10 \<le> opacity d" "opacity d < 6/10" by linarith+
  show ?thesis
    using left_range[OF r] duration_range[OF r] delay_range[OF r] o o'
    by (simp add: d mkDrop_def)
qed

theorem drops_ranges_witness:
  "(\<forall>k. is_draw (halfDraws k)) \<and> mkDrop halfDraws 0 \<in> set (drops halfDraws ''light'') \<and>
   left (mkDrop halfDraws 0) = 50 \<and> left (mkDrop halfDraws 0) < 100 \<and>
   animationDuration (mkDrop halfDraws 0) \<le> 1 \<and>
   animationDelay (mkDrop halfDraws 0) < 2 \<and>
   opacity (mkDrop halfDraws 0) \<le> lit 6 10"
proof -
  have a: "\<forall>k. is_draw (halfDraws k)" by (simp add: halfDraws_def draw_half)
  have b: "mkDrop halfDraws 0 \<in> set (drops halfDraws ''light'')"
    by (simp add: drops_def dropCount_def)
  have c: "left (mkDrop halfDraws 0) = 50" by code_simp
  from drops_ranges[OF a b] a b c show ?thesis by simp
qed

section \<open>The page controller (\<open>RainyPage\<close>)\<close>

text \<open>
  The page is a React function component: nine state variables, two references to audio
  elements, three effects and two handlers. The model makes explicit what React and the browser
  do around that code:
  \<^item> a render reads the state as it is; the closures of that render (handlers, effects, timer
    callbacks) keep seeing these values, while the setters queue updates that the next render
    takes up;
  \<^item> after a render the effects whose dependencies changed are run, cleanups first, then the
    effect bodies in the order of the source; updates queued meanwhile cause another render;
  \<^item> timeouts are kept in a list with their due times, and time is a number of milliseconds
    that advances between events; a timeout fires when it is due;
  \<^item> the values returned by \<open>Math.random()\<close> are an input, as for the rain renderer.
\<close>

datatype WeatherType = Light | Medium | Heavy

datatype TimeOfDay = Day | Night | Dusk

datatype Surface = Glass | Metal | Tiles | Car | Leaves | Cement

fun weatherName :: "WeatherType \<Rightarrow> string" where
  "weatherName Light = ''light''"
| "weatherName Medium = ''medium''"
| "weatherName Heavy = ''heavy''"

lemma dropCount_weatherName:
  "dropCount (weatherName i) = (case i of Light \<Rightarrow> 50 | Medium \<Rightarrow> 150 | Heavy \<Rightarrow> 400)"
  by (cases i) (simp_all add: dropCount_def)

fun AUDIO_SOURCES :: "Surface \<Rightarrow> WeatherType \<Rightarrow> string" where
  "AUDIO_SOURCES Glass Light = ''https://www.orangefreesounds.com/wp-content/uploads/2020/03/Rain-on-window-sound.mp3''"
| "AUDIO_SOURCES Glass Medium = ''https://www.orangefreesounds.com/wp-content/uploads/2020/03/Rain-on-window-sound.mp3''"
| "AUDIO_SOURCES Glass Heavy = ''https://www.orangefreesounds.com/wp-content/uploads/2020/03/Rain-on-window-sound.mp3''"
| "AUDIO_SOURCES Metal Light = ''https://orangefreesounds.com/wp-content/uploads/2023/05/Rain-on-metal-roof-sound.mp3''"
| "AUDIO_SOURCES Metal Medium = ''https://orangefreesounds.com/wp-content/uploads/2023/05/Rain-on-metal-roof-sound.mp3''"
| "AUDIO_SOURCES Metal Heavy = ''https://orangefreesounds.com/wp-content/uploads/2023/05/Rain-on-metal-roof-sound.mp3''"
| "AUDIO_SOURCES Tiles Light = ''https://www.orangefreesounds.com/wp-content/uploads/2020/06/Rain-on-roof-sounds.mp3''"
| "AUDIO_SOURCES Tiles Medium = ''https://www.orangefreesounds.com/wp-content/uploads/2020/06/Rain-on-roof-sounds.mp3''"
| "AUDIO_SOURCES Tiles Heavy = ''https://www.orangefreesounds.com/wp-content/uploads/2020/06/Rain-on-roof-sounds.mp3''"
| "AUDIO_SOURCES Car Light = ''https://www.orangefreesounds.com/wp-content/uploads/2021/07/Raindrops-on-the-car-window-sound-effect.mp3''"
| "AUDIO_SOURCES Car Medium = ''https://www.orangefreesounds.com/wp-content/uploads/2021/07/Raindrops-on-the-car-window-sound-effect.mp3''"
| "AUDIO_SOURCES Car Heavy = ''https://www.orangefreesounds.com/wp-content/uploads/2021/07/Raindrops-on-the-car-window-sound-effect.mp3''"
| "AUDIO_SOURCES Leaves Light = ''https://www.orangefreesounds.com/wp-content/uploads/2016/04/Rainforest-sounds.mp3''"
| "AUDIO_SOURCES Leaves Medium = ''https://www.orangefreesounds.com/wp-content/uploads/2016/04/Rainforest-sounds.mp3''"
| "AUDIO_SOURCES Leaves Heavy = ''https://www.orangefreesounds.com/wp-content/uploads/2016/04/Rainforest-sounds.mp3''"
| "AUDIO_SOURCES Cement Light = ''https://www.orangefreesounds.com/wp-content/uploads/2019/06/Rain-on-concrete.mp3''"
| "AUDIO_SOURCES Cement Medium = ''https://www.orangefreesounds.com/wp-content/uploads/2019/06/Rain-on-concrete.mp3''"
| "AUDIO_SOURCES Cement Heavy = ''https://www.orangefreesounds.com/wp-content/uploads/2019/06/Rain-on-concrete.mp3''"

definition THUNDER_SOUND :: string where
  "THUNDER_SOUND = ''https://orangefreesounds.com/wp-content/uploads/2023/01/Thunder-clap-sound-effect-no-rain.mp3''"

subsection \<open>Audio elements\<close>

text \<open>
  An audio element is modelled by the attributes the page reads and writes, and by the list of
  calls that reach the media engine, oldest first. Assigning \<open>src\<close> starts the load of the new
  resource, which pauses the element; \<open>play()\<close> starts playback when the browser permits it
  and is rejected otherwise, the element staying as it was (the page logs the rejection and
  goes on); \<open>pause()\<close> pauses. A new element has no calls, is paused and has volume 1.
\<close>

datatype media_call = Load string | Play | Pause

record audio_el =
  src :: string
  el_volume :: rat
  paused :: bool
  loop :: bool
  currentTime :: rat
  calls :: "media_call list"

definition newAudio :: "string \<Rightarrow> audio_el" where
  "newAudio s = \<lparr> src = s, el_volume = 1, paused = True, loop = False, currentTime = 0, calls = [] \<rparr>"

definition set_src :: "string \<Rightarrow> audio_el \<Rightarrow> audio_el" where
  "set_src s a = a\<lparr> src := s, paused := True, calls := calls a @ [Load s] \<rparr>"

definition play :: "bool \<Rightarrow> audio_el \<Rightarrow> audio_el" where
  "play permitted a =
     a\<lparr> paused := (if permitted then False else paused a), calls := calls a @ [Play] \<rparr>"

definition pause :: "audio_el \<Rightarrow> audio_el" where
  "pause a = a\<lparr> paused := True, calls := calls a @ [Pause] \<rparr>"

subsection \<open>Component state, timers and the world around them\<close>

text \<open>
  \<open>page_state\<close> holds the nine \<open>useState\<close> variables. A \<open>callback\<close> is a function handed to
  \<open>setTimeout\<close>: the one made by \<open>randomInterval\<close>, together with the values of \<open>isMuted\<close> and
  \<open>windowOpen\<close> it closed over and the \<open>timerRef\<close> object it writes to, or the one that ends a
  flash. In a \<open>world\<close>,
  \<^item> \<open>st\<close> is the state of the last render and \<open>pend\<close> the state with the queued updates;
  \<^item> \<open>timers\<close> are the pending timeouts, \<open>nextTimer\<close> the next identifier, \<open>now\<close> the clock;
  \<^item> \<open>timerRefs\<close> is the store of the \<open>timerRef\<close> objects made by the runs of the thunder
    effect (object number to its \<open>current\<close> field), and \<open>thunderCleanup\<close> the object that the
    cleanup returned by the last run will clear, if that run returned a cleanup;
  \<^item> \<open>audioDeps\<close>, \<open>volumeDeps\<close> and \<open>thunderDeps\<close> are the dependencies each effect last ran
    with (none before the mount);
  \<^item> \<open>draws\<close> counts the calls of \<open>Math.random()\<close>, \<open>permit\<close> says whether the browser lets
    \<open>play()\<close> start playback;
  \<^item> \<open>flashes\<close> records the time of every call \<open>setIsThundering(true)\<close>; nothing reads it, it
    is there to state when flashes happen.
  The delay given to \<open>setTimeout\<close> is kept as it is (a browser rounds it down to whole
  milliseconds and may fire later).
\<close>

record page_state =
  weatherIntensity :: WeatherType
  timeOfDay :: TimeOfDay
  showControls :: bool
  isMuted :: bool
  windowOpen :: bool
  volume :: rat
  isThundering :: bool
  enableManualThunder :: bool
  surface :: Surface

datatype callback = AutoThunder bool bool nat | ClearFlash

record timer =
  tid :: nat
  due :: rat
  act :: callback

record world =
  st :: page_state
  pend :: page_state
  audioRef :: "audio_el option"
  thunderAudioRef :: "audio_el option"
  timers :: "timer list"
  nextTimer :: nat
  now :: rat
  timerRefs :: "nat \<Rightarrow> nat"
  nextRef :: nat
  thunderCleanup :: "nat option"
  audioDeps :: "(WeatherType \<times> bool \<times> rat \<times> Surface) option"
  volumeDeps :: "bool option"
  thunderDeps :: "(WeatherType \<times> bool \<times> bool) option"
  draws :: nat
  permit :: bool
  flashes :: "rat list"

definition setTimeout :: "callback \<Rightarrow> rat \<Rightarrow> world \<Rightarrow> nat \<times> world" where
  "setTimeout f delay w =
     (nextTimer w,
      w\<lparr> timers := timers w @ [\<lparr> tid = nextTimer w, due = now w + delay, act = f \<rparr>],
         nextTimer := Suc (nextTimer w) \<rparr>)"

definition clearTimeout :: "nat \<Rightarrow> world \<Rightarrow> world" where
  "clearTimeout i w = w\<lparr> timers := filter (\<lambda>t. tid t \<noteq> i) (timers w) \<rparr>"

subsection \<open>The effects\<close>

text \<open>
  The three effects, then the functions declared inside the thunder effect. \<open>triggerThunder\<close>
  and \<open>randomInterval\<close> take the values of \<open>isMuted\<close> and \<open>windowOpen\<close> of the render in which
  the effect ran, and \<open>randomInterval\<close> the \<open>timerRef\<close> of that run; \<open>thunderDelay\<close> is the
  expression \<open>5000 + Math.random() * 10000\<close> as a function of the draw. \<open>runCallback\<close> is what a
  timeout does when it fires.
\<close>

definition audioEffect :: "world \<Rightarrow> world" where
  "audioEffect w =
     (case audioRef w of
        None \<Rightarrow> w
      | Some a0 \<Rightarrow>
          (let s = st w;
               audio = a0\<lparr> loop := True \<rparr>;
               targetSrc = AUDIO_SOURCES (surface s) (weatherIntensity s);
               needsSrcChange = (src audio \<noteq> targetSrc);
               audio = (if needsSrcChange then set_src targetSrc audio else audio);
               audio = audio\<lparr> el_volume := volume s \<rparr>;
               audio = (if isMuted s then pause audio
                        else if paused audio \<or> needsSrcChange then play (permit w) audio
                        else audio)
           in w\<lparr> audioRef := Some audio \<rparr>))"

definition volumeEffect :: "world \<Rightarrow> world" where
  "volumeEffect w =
     (if windowOpen (st w) then w\<lparr> pend := (pend w)\<lparr> volume := lit 8 10 \<rparr> \<rparr>
      else w\<lparr> pend := (pend w)\<lparr> volume := lit 3 10 \<rparr> \<rparr>)"

definition triggerThunder :: "bool \<Rightarrow> bool \<Rightarrow> world \<Rightarrow> world" where
  "triggerThunder muted wopen w =
     (let w1 = w\<lparr> pend := (pend w)\<lparr> isThundering := True \<rparr>, flashes := flashes w @ [now w] \<rparr>;
          w2 = (if \<not> muted then
                  (case thunderAudioRef w1 of
                     None \<Rightarrow> w1
                   | Some a \<Rightarrow>
                       w1\<lparr> thunderAudioRef :=
                             Some (play (permit w1)
                                    (a\<lparr> currentTime := 0,
                                        el_volume := (if wopen then 1 else 1/2) \<rparr>)) \<rparr>)
                else w1)
      in snd (setTimeout ClearFlash 1000 w2))"

definition thunderDelay :: "rat \<Rightarrow> rat" where
  "thunderDelay r = js_add 5000 (js_mul r 10000)"

definition randomInterval :: "(nat \<Rightarrow> rat) \<Rightarrow> bool \<Rightarrow> bool \<Rightarrow> nat \<Rightarrow> world \<Rightarrow> nat \<times> world" where
  "randomInterval random muted wopen ref w =
     (let delay = thunderDelay (random (draws w))
      in setTimeout (AutoThunder muted wopen ref) delay (w\<lparr> draws := Suc (draws w) \<rparr>))"

fun runCallback :: "(nat \<Rightarrow> rat) \<Rightarrow> callback \<Rightarrow> world \<Rightarrow> world" where
  "runCallback random (AutoThunder muted wopen ref) w =
     (let w1 = triggerThunder muted wopen w;
          (i, w2) = randomInterval random muted wopen ref w1
      in w2\<lparr> timerRefs := (timerRefs w2)(ref := i) \<rparr>)"
| "runCallback random ClearFlash w = w\<lparr> pend := (pend w)\<lparr> isThundering := False \<rparr> \<rparr>"

definition thunderEffect :: "(nat \<Rightarrow> rat) \<Rightarrow> world \<Rightarrow> world" where
  "thunderEffect random w =
     (let s = st w
      in if weatherIntensity s \<noteq> Heavy
         then w\<lparr> pend := (pend w)\<lparr> isThundering := False \<rparr>, thunderCleanup := None \<rparr>
         else (let ref = nextRef w;
                   (i, w1) = randomInterval random (isMuted s) (windowOpen s) ref w
               in w1\<lparr> timerRefs := (timerRefs w1)(ref := i), nextRef := Suc ref,
                      thunderCleanup := Some ref \<rparr>))"

subsection \<open>Rendering\<close>

text \<open>
  \<open>commit\<close> is one render with its effects: the queued updates become the state, the cleanup
  of the thunder effect runs if its dependencies changed, then each effect whose dependencies
  changed runs and records them. \<open>settle\<close> renders again while updates are queued; it returns
  after at most two renders, which the termination proof below and \<open>settle_twice\<close> establish.
\<close>

text \<open>The dependency arrays of the three effects, read from the state of a render.\<close>

definition audioKey :: "page_state \<Rightarrow> WeatherType \<times> bool \<times> rat \<times> Surface" where
  "audioKey s = (weatherIntensity s, isMuted s, volume s, surface s)"

definition volumeKey :: "page_state \<Rightarrow> bool" where
  "volumeKey s = windowOpen s"

definition thunderKey :: "page_state \<Rightarrow> WeatherType \<times> bool \<times> bool" where
  "thunderKey s = (weatherIntensity s, isMuted s, windowOpen s)"

definition cleanupThunder :: "world \<Rightarrow> world" where
  "cleanupThunder w =
     (if thunderDeps w \<noteq> Some (thunderKey (st w))
      then (case thunderCleanup w of
              None \<Rightarrow> w
            | Some ref \<Rightarrow> clearTimeout (timerRefs w ref) w)
      else w)"

definition useAudio :: "world \<Rightarrow> world" where
  "useAudio w =
     (if audioDeps w \<noteq> Some (audioKey (st w))
      then (audioEffect w)\<lparr> audioDeps := Some (audioKey (st w)) \<rparr>
      else w)"

definition useVolume :: "world \<Rightarrow> world" where
  "useVolume w =
     (if volumeDeps w \<noteq> Some (volumeKey (st w))
      then (volumeEffect w)\<lparr> volumeDeps := Some (volumeKey (st w)) \<rparr>
      else w)"

definition useThunder :: "(nat \<Rightarrow> rat) \<Rightarrow> world \<Rightarrow> world" where
  "useThunder random w =
     (if thunderDeps w \<noteq> Some (thunderKey (st w))
      then (thunderEffect random w)\<lparr> thunderDeps := Some (thunderKey (st w)) \<rparr>
      else w)"

definition commit :: "(nat \<Rightarrow> rat) \<Rightarrow> world \<Rightarrow> world" where
  "commit random w =
     useThunder random (useVolume (useAudio (cleanupThunder (w\<lparr> st := pend w \<rparr>))))"

function settle :: "(nat \<Rightarrow> rat) \<Rightarrow> world \<Rightarrow> world" where
  "settle random w = (let w' = commit random w in if pend w' = st w' then w' else settle random w')"
  by pat_completeness auto

lemma setTimeout_fields [simp]:
  "fst (setTimeout f d w) = nextTimer w"
  "snd (setTimeout f d w) =
     w\<lparr> timers := timers w @ [\<lparr> tid = nextTimer w, due = now w + d, act = f \<rparr>],
        nextTimer := Suc (nextTimer w) \<rparr>"
  by (simp_all add: setTimeout_def)

lemma audioEffect_shape: "\<exists>a. audioEffect w = w\<lparr> audioRef := a \<rparr>"
proof -
  have "audioEffect w = w\<lparr> audioRef := audioRef (audioEffect w) \<rparr>"
    by (cases "audioRef w") (simp_all add: audioEffect_def Let_def)
  then show ?thesis by blast
qed

lemma useAudio_shape: "\<exists>a d. useAudio w = w\<lparr> audioRef := a, audioDeps := d \<rparr>"
proof (cases "audioDeps w \<noteq> Some (audioKey (st w))")
  case True
  obtain a where "audioEffect w = w\<lparr> audioRef := a \<rparr>" using audioEffect_shape by blast
  with True show ?thesis by (auto simp: useAudio_def)
next
  case False
  then have "useAudio w = w\<lparr> audioRef := audioRef w, audioDeps := audioDeps w \<rparr>"
    by (simp add: useAudio_def)
  then show ?thesis by blast
qed

lemma useAudio_deps [simp]: "audioDeps (useAudio w) = Some (audioKey (st w))"
  using audioEffect_shape[of w] by (auto simp: useAudio_def)

lemma useVolume_eq:
  "useVolume w =
     (if volumeDeps w = Some (windowOpen (st w)) then w
      else w\<lparr> pend := (pend w)\<lparr> volume := (if windowOpen (st w) then lit 8 10 else lit 3 10) \<rparr>,
             volumeDeps := Some (windowOpen (st w)) \<rparr>)"
  by (simp add: useVolume_def volumeEffect_def volumeKey_def)

lemma cleanupThunder_eq:
  "cleanupThunder w =
     (if thunderDeps w = Some (thunderKey (st w)) then w
      else case thunderCleanup w of None \<Rightarrow> w
           | Some ref \<Rightarrow> w\<lparr> timers := filter (\<lambda>t. tid t \<noteq> timerRefs w ref) (timers w) \<rparr>)"
  by (simp add: cleanupThunder_def clearTimeout_def split: option.split)

lemma cleanupThunder_shape: "\<exists>ts. cleanupThunder w = w\<lparr> timers := ts \<rparr>"
proof -
  have "cleanupThunder w = w\<lparr> timers := timers (cleanupThunder w) \<rparr>"
    by (simp add: cleanupThunder_eq split: option.split)
  then show ?thesis by blast
qed

lemma randomInterval_eq:
  "randomInterval random m wo ref w =
     (nextTimer w,
      w\<lparr> timers := timers w @
            [\<lparr> tid = nextTimer w,
               due = now w + thunderDelay (random (draws w)),
               act = AutoThunder m wo ref \<rparr>],
         nextTimer := Suc (nextTimer w), draws := Suc (draws w) \<rparr>)"
  by (simp add: randomInterval_def setTimeout_def Let_def)

lemma thunderEffect_eq:
  "thunderEffect random w =
     (if weatherIntensity (st w) \<noteq> Heavy
      then w\<lparr> pend := (pend w)\<lparr> isThundering := False \<rparr>, thunderCleanup := None \<rparr>
      else w\<lparr> timers := timers w @
                  [\<lparr> tid = nextTimer w,
                     due = now w + thunderDelay (random (draws w)),
                     act = AutoThunder (isMuted (st w)) (windowOpen (st w)) (nextRef w) \<rparr>],
             nextTimer := Suc (nextTimer w), draws := Suc (draws w),
             timerRefs := (timerRefs w)(nextRef w := nextTimer w), nextRef := Suc (nextRef w),
             thunderCleanup := Some (nextRef w) \<rparr>)"
  by (simp add: thunderEffect_def randomInterval_eq Let_def)

lemma useThunder_eq:
  "useThunder random w =
     (if thunderDeps w = Some (thunderKey (st w)) then w
      else if weatherIntensity (st w) \<noteq> Heavy
      then w\<lparr> pend := (pend w)\<lparr> isThundering := False \<rparr>, thunderCleanup := None,
             thunderDeps := Some (thunderKey (st w)) \<rparr>
      else w\<lparr> timers := timers w @
                  [\<lparr> tid = nextTimer w,
                     due = now w + thunderDelay (random (draws w)),
                     act = AutoThunder (isMuted (st w)) (windowOpen (st w)) (nextRef w) \<rparr>],
             nextTimer := Suc (nextTimer w), draws := Suc (draws w),
             timerRefs := (timerRefs w)(nextRef w := nextTimer w), nextRef := Suc (nextRef w),
             thunderCleanup := Some (nextRef w),
             thunderDeps := Some (thunderKey (st w)) \<rparr>)"
  by (simp add: useThunder_def thunderEffect_eq)

text \<open>What one commit does to the fields that decide whether another render follows.\<close>

lemma commit_st [simp]: "st (commit random w) = pend w"
proof -
  obtain ts where 1: "cleanupThunder (w\<lparr> st := pend w \<rparr>) = w\<lparr> st := pend w, timers := ts \<rparr>"
    using cleanupThunder_shape[of "w\<lparr> st := pend w \<rparr>"] by auto
  obtain a d where 2: "useAudio (w\<lparr> st := pend w, timers := ts \<rparr>)
      = w\<lparr> st := pend w, timers := ts, audioRef := a, audioDeps := d \<rparr>"
    using useAudio_shape[of "w\<lparr> st := pend w, timers := ts \<rparr>"] by auto
  show ?thesis by (simp add: commit_def 1 2 useVolume_eq useThunder_eq)
qed

lemma commit_shape:
  "\<exists>ts a d. commit random w =
     useThunder random (useVolume (w\<lparr> st := pend w, timers := ts, audioRef := a, audioDeps := d \<rparr>))"
proof -
  obtain ts where 1: "cleanupThunder (w\<lparr> st := pend w \<rparr>) = w\<lparr> st := pend w, timers := ts \<rparr>"
    using cleanupThunder_shape[of "w\<lparr> st := pend w \<rparr>"] by auto
  obtain a d where 2: "useAudio (w\<lparr> st := pend w, timers := ts \<rparr>)
      = w\<lparr> st := pend w, timers := ts, audioRef := a, audioDeps := d \<rparr>"
    using useAudio_shape[of "w\<lparr> st := pend w, timers := ts \<rparr>"] by auto
  show ?thesis unfolding commit_def 1 2 by blast
qed

lemma commit_volumeDeps [simp]: "volumeDeps (commit random w) = Some (windowOpen (pend w))"
proof -
  obtain ts a d where "commit random w =
     useThunder random (useVolume (w\<lparr> st := pend w, timers := ts, audioRef := a, audioDeps := d \<rparr>))"
    using commit_shape by blast
  then show ?thesis by (simp add: useVolume_eq useThunder_eq)
qed

lemma commit_thunderDeps [simp]: "thunderDeps (commit random w) = Some (thunderKey (pend w))"
proof -
  obtain ts a d where "commit random w =
     useThunder random (useVolume (w\<lparr> st := pend w, timers := ts, audioRef := a, audioDeps := d \<rparr>))"
    using commit_shape by blast
  then show ?thesis by (simp add: useVolume_eq useThunder_eq)
qed

lemma commit_pend:
  "pend (commit random w) =
     (pend w)\<lparr> volume := (if volumeDeps w = Some (windowOpen (pend w)) then volume (pend w)
                          else if windowOpen (pend w) then lit 8 10 else lit 3 10),
               isThundering := (if thunderDeps w \<noteq> Some (thunderKey (pend w)) \<and>
                                   weatherIntensity (pend w) \<noteq> Heavy
                                then False else isThundering (pend w)) \<rparr>"
proof -
  obtain ts a d where "commit random w =
     useThunder random (useVolume (w\<lparr> st := pend w, timers := ts, audioRef := a, audioDeps := d \<rparr>))"
    using commit_shape by blast
  then show ?thesis by (simp add: useVolume_eq useThunder_eq)
qed

lemma commit_audioDeps [simp]: "audioDeps (commit random w) = Some (audioKey (pend w))"
proof -
  obtain ts where 1: "cleanupThunder (w\<lparr> st := pend w \<rparr>) = w\<lparr> st := pend w, timers := ts \<rparr>"
    using cleanupThunder_shape[of "w\<lparr> st := pend w \<rparr>"] by auto
  have "audioDeps (useAudio (w\<lparr> st := pend w, timers := ts \<rparr>)) = Some (audioKey (pend w))"
    by simp
  then show ?thesis by (simp add: commit_def 1 useVolume_eq useThunder_eq)
qed

lemma commit_pend_keys [simp]:
  "windowOpen (pend (commit random w)) = windowOpen (pend w)"
  "weatherIntensity (pend (commit random w)) = weatherIntensity (pend w)"
  "isMuted (pend (commit random w)) = isMuted (pend w)"
  "surface (pend (commit random w)) = surface (pend w)"
  "timeOfDay (pend (commit random w)) = timeOfDay (pend w)"
  "showControls (pend (commit random w)) = showControls (pend w)"
  "enableManualThunder (pend (commit random w)) = enableManualThunder (pend w)"
  by (simp_all add: commit_pend)

lemma thunderKey_commit [simp]: "thunderKey (pend (commit random w)) = thunderKey (pend w)"
  by (simp add: thunderKey_def)

lemma commit_pend_clean:
  assumes "volumeDeps w = Some (windowOpen (pend w))" and "thunderDeps w = Some (thunderKey (pend w))"
  shows "pend (commit random w) = pend w"
  using assms by (simp add: commit_pend)

definition unsettled :: "world \<Rightarrow> nat" where
  "unsettled w =
     (if volumeDeps w = Some (windowOpen (pend w)) \<and> thunderDeps w = Some (thunderKey (pend w))
      then 0 else 1)"

lemma unsettled_commit: "unsettled (commit random w) = 0"
  by (simp add: unsettled_def)

lemma unsettled_before:
  assumes "pend (commit random w) \<noteq> st (commit random w)"
  shows "unsettled w = 1"
  using assms commit_pend_clean[of w random] by (auto simp: unsettled_def)

termination settle
proof (relation "measure (\<lambda>(random, w). unsettled w)")
  show "wf (measure (\<lambda>(random, w). unsettled w))" by simp
next
  fix random w x
  assume "x = commit random w" and "pend x \<noteq> st x"
  then show "((random, x), (random, w)) \<in> measure (\<lambda>(random, w). unsettled w)"
    by (simp add: unsettled_commit unsettled_before)
qed

declare settle.simps [simp del]

text \<open>At most two renders follow an event.\<close>

lemma settle_twice:
  "settle random w =
     (let w' = commit random w in if pend w' = st w' then w' else commit random w')"
proof -
  define w' where "w' = commit random w"
  have clean: "pend (commit random w') = pend w'"
    unfolding w'_def by (rule commit_pend_clean) simp_all
  have "settle random w' = commit random w'"
    by (subst settle.simps) (simp add: clean)
  then show ?thesis
    by (subst settle.simps) (simp add: w'_def Let_def)
qed

subsection \<open>Event handlers\<close>

text \<open>
  The two handlers of the source, then what can happen to a mounted page. A switch reports
  the value it is set to; the thunder button exists only while \<open>enableManualThunder\<close> holds in
  the last render. \<open>Elapse d\<close> lets \<open>d\<close> milliseconds pass if no timeout is due before;
  \<open>Fire\<close> runs the timeout that is due first, at its due time. \<open>Autoplay\<close> is the browser
  changing its mind about playback. After each event the page renders until it settles. The
  worlds a page can be in are those reached from the mount by events.
\<close>

definition handleIntensityChange :: "WeatherType \<Rightarrow> world \<Rightarrow> world" where
  "handleIntensityChange intensity w =
     (let w1 = w\<lparr> pend := (pend w)\<lparr> weatherIntensity := intensity, isMuted := False \<rparr> \<rparr>
      in case audioRef w1 of
           None \<Rightarrow> w1
         | Some a \<Rightarrow>
             (let newSrc = AUDIO_SOURCES (surface (st w1)) intensity
              in if src a \<noteq> newSrc
                 then w1\<lparr> audioRef := Some (play (permit w1) (set_src newSrc a)) \<rparr>
                 else w1))"

definition triggerManualThunder :: "world \<Rightarrow> world" where
  "triggerManualThunder w =
     (let w1 = w\<lparr> pend := (pend w)\<lparr> isThundering := True \<rparr>, flashes := flashes w @ [now w] \<rparr>;
          w2 = (if \<not> isMuted (st w) then
                  (case thunderAudioRef w1 of
                     None \<Rightarrow> w1
                   | Some a \<Rightarrow>
                       w1\<lparr> thunderAudioRef :=
                             Some (play (permit w1)
                                    (a\<lparr> currentTime := 0,
                                        el_volume := (if windowOpen (st w) then 1 else 1/2) \<rparr>)) \<rparr>)
                else w1)
      in snd (setTimeout ClearFlash 1000 w2))"

datatype event =
    ClickIntensity WeatherType
  | ClickTimeOfDay TimeOfDay
  | ToggleControls
  | SelectSurface Surface
  | SwitchSound bool
  | SwitchWindow bool
  | SwitchThunder bool
  | ClickTriggerThunder
  | Autoplay bool
  | Elapse rat
  | Fire

fun earliest :: "timer list \<Rightarrow> timer option" where
  "earliest [] = None"
| "earliest (t # ts) =
     (case earliest ts of
        None \<Rightarrow> Some t
      | Some u \<Rightarrow> if due u < due t then Some u else Some t)"

fun handle :: "(nat \<Rightarrow> rat) \<Rightarrow> event \<Rightarrow> world \<Rightarrow> world" where
  "handle random (ClickIntensity i) w = handleIntensityChange i w"
| "handle random (ClickTimeOfDay t) w = w\<lparr> pend := (pend w)\<lparr> timeOfDay := t \<rparr> \<rparr>"
| "handle random ToggleControls w = w\<lparr> pend := (pend w)\<lparr> showControls := \<not> showControls (st w) \<rparr> \<rparr>"
| "handle random (SelectSurface s) w = w\<lparr> pend := (pend w)\<lparr> surface := s \<rparr> \<rparr>"
| "handle random (SwitchSound c) w = w\<lparr> pend := (pend w)\<lparr> isMuted := \<not> c \<rparr> \<rparr>"
| "handle random (SwitchWindow c) w = w\<lparr> pend := (pend w)\<lparr> windowOpen := c \<rparr> \<rparr>"
| "handle random (SwitchThunder c) w = w\<lparr> pend := (pend w)\<lparr> enableManualThunder := c \<rparr> \<rparr>"
| "handle random ClickTriggerThunder w =
     (if enableManualThunder (st w) then triggerManualThunder w else w)"
| "handle random (Autoplay b) w = w\<lparr> permit := b \<rparr>"
| "handle random (Elapse d) w =
     (if 0 \<le> d \<and> (\<forall>t \<in> set (timers w). now w + d \<le> due t) then w\<lparr> now := now w + d \<rparr> else w)"
| "handle random Fire w =
     (case earliest (timers w) of
        None \<Rightarrow> w
      | Some t \<Rightarrow>
          runCallback random (act t)
            (w\<lparr> timers := filter (\<lambda>u. tid u \<noteq> tid t) (timers w), now := max (now w) (due t) \<rparr>))"

definition step :: "(nat \<Rightarrow> rat) \<Rightarrow> event \<Rightarrow> world \<Rightarrow> world" where
  "step random e w = settle random (handle random e w)"

fun run :: "(nat \<Rightarrow> rat) \<Rightarrow> event list \<Rightarrow> world \<Rightarrow> world" where
  "run random [] w = w"
| "run random (e # es) w = run random es (step random e w)"

definition initialState :: page_state where
  "initialState =
     \<lparr> weatherIntensity = Medium, timeOfDay = Night, showControls = True, isMuted = False,
       windowOpen = False, volume = 1/2, isThundering = False, enableManualThunder = False,
       surface = Glass \<rparr>"

definition initial :: "bool \<Rightarrow> world" where
  "initial p =
     \<lparr> st = initialState, pend = initialState,
       audioRef = Some (newAudio ''''), thunderAudioRef = Some (newAudio THUNDER_SOUND),
       timers = [], nextTimer = 1, now = 0, timerRefs = (\<lambda>_. 0), nextRef = 0,
       thunderCleanup = None, audioDeps = None, volumeDeps = None, thunderDeps = None,
       draws = 0, permit = p, flashes = [] \<rparr>"

definition mounted :: "(nat \<Rightarrow> rat) \<Rightarrow> bool \<Rightarrow> world" where
  "mounted random p = settle random (initial p)"

inductive reachable :: "(nat \<Rightarrow> rat) \<Rightarrow> world \<Rightarrow> bool" for random where
  mount: "reachable random (mounted random p)"
| event: "reachable random w \<Longrightarrow> reachable random (step random e w)"

subsection \<open>Invariants of the timer loop\<close>

definition autoTimers :: "world \<Rightarrow> timer list" where
  "autoTimers w = filter (\<lambda>t. act t \<noteq> ClearFlash) (timers w)"

definition timersOk :: "world \<Rightarrow> bool" where
  "timersOk w \<longleftrightarrow> (\<forall>t \<in> set (timers w). tid t < nextTimer w) \<and> distinct (map tid (timers w))"

definition loopOk :: "world \<Rightarrow> bool" where
  "loopOk w \<longleftrightarrow>
     (\<forall>m wo. thunderDeps w = Some (Heavy, m, wo) \<longrightarrow>
        (\<exists>ref d. thunderCleanup w = Some ref \<and>
           autoTimers w = [\<lparr> tid = timerRefs w ref, due = d, act = AutoThunder m wo ref \<rparr>])) \<and>
     ((\<forall>m wo. thunderDeps w \<noteq> Some (Heavy, m, wo)) \<longrightarrow>
        thunderCleanup w = None \<and> autoTimers w = [])"

definition midOk :: "world \<Rightarrow> bool" where
  "midOk w \<longleftrightarrow>
     timersOk w \<and> (if thunderDeps w = Some (thunderKey (st w)) then loopOk w else autoTimers w = [])"

lemma loopOk_st [simp]: "loopOk (w\<lparr> st := s \<rparr>) = loopOk w"
  by (simp add: loopOk_def autoTimers_def)

lemma timersOk_st [simp]: "timersOk (w\<lparr> st := s \<rparr>) = timersOk w"
  by (simp add: timersOk_def)

lemma filter_tid_single:
  "filter (\<lambda>t. tid t \<noteq> i) [\<lparr> tid = i, due = d, act = f \<rparr>] = []"
  by simp

lemma autoTimers_filter:
  "autoTimers (w\<lparr> timers := filter P (timers w) \<rparr>) = filter P (autoTimers w)"
  by (simp add: autoTimers_def conj_commute)

lemma timersOk_filter:
  assumes "timersOk w"
  shows "timersOk (w\<lparr> timers := filter P (timers w) \<rparr>)"
  using assms by (auto simp: timersOk_def distinct_map_filter)

lemma cleanupThunder_mid:
  assumes "timersOk w" "loopOk w"
  shows "midOk (cleanupThunder w)"
proof (cases "thunderDeps w = Some (thunderKey (st w))")
  case True
  then show ?thesis using assms by (simp add: cleanupThunder_eq midOk_def)
next
  case dirty: False
  show ?thesis
  proof (cases "thunderCleanup w")
    case None
    then have "autoTimers w = []"
      using assms(2) by (auto simp: loopOk_def)
    then show ?thesis using dirty None assms(1) by (simp add: cleanupThunder_eq midOk_def autoTimers_def)
  next
    case (Some ref)
    then obtain d m wo where
      a: "autoTimers w = [\<lparr> tid = timerRefs w ref, due = d, act = AutoThunder m wo ref \<rparr>]"
      using assms(2) by (auto simp: loopOk_def)
    have "autoTimers (w\<lparr> timers := filter (\<lambda>t. tid t \<noteq> timerRefs w ref) (timers w) \<rparr>) = []"
      unfolding autoTimers_filter a by simp
    then show ?thesis
      using dirty Some timersOk_filter[OF assms(1)] by (simp add: cleanupThunder_eq midOk_def)
  qed
qed

lemma midOk_audio [simp]: "midOk (w\<lparr> audioRef := a, audioDeps := d \<rparr>) = midOk w"
  by (simp add: midOk_def timersOk_def loopOk_def autoTimers_def)

lemma useAudio_mid: "midOk w \<Longrightarrow> midOk (useAudio w)"
  using useAudio_shape[of w] by auto

lemma midOk_volume [simp]: "midOk (w\<lparr> pend := p, volumeDeps := d \<rparr>) = midOk w"
  by (simp add: midOk_def timersOk_def loopOk_def autoTimers_def)

lemma useVolume_mid: "midOk w \<Longrightarrow> midOk (useVolume w)"
  by (simp add: useVolume_eq)

lemma useThunder_ok:
  assumes "midOk w"
  shows "timersOk (useThunder random w)" and "loopOk (useThunder random w)"
proof -
  have t: "timersOk w" using assms by (simp add: midOk_def)
  show "timersOk (useThunder random w)"
    using t by (auto simp: useThunder_eq timersOk_def less_Suc_eq)
  show "loopOk (useThunder random w)"
  proof (cases "thunderDeps w = Some (thunderKey (st w))")
    case True
    then show ?thesis using assms by (simp add: useThunder_eq midOk_def)
  next
    case False
    then have "autoTimers w = []" using assms by (simp add: midOk_def)
    then show ?thesis
      using False by (simp add: useThunder_eq loopOk_def autoTimers_def thunderKey_def)
  qed
qed

lemma commit_ok:
  assumes "timersOk w" "loopOk w"
  shows "timersOk (commit random w)" and "loopOk (commit random w)"
proof -
  have "midOk (cleanupThunder (w\<lparr> st := pend w \<rparr>))"
    using assms by (intro cleanupThunder_mid) simp_all
  then have "midOk (useVolume (useAudio (cleanupThunder (w\<lparr> st := pend w \<rparr>))))"
    by (intro useVolume_mid useAudio_mid)
  then show "timersOk (commit random w)" and "loopOk (commit random w)"
    unfolding commit_def by (rule useThunder_ok)+
qed

lemma settle_ok:
  assumes "timersOk w" "loopOk w"
  shows "timersOk (settle random w)" and "loopOk (settle random w)"
  using assms commit_ok[of w random] commit_ok[of "commit random w" random]
  by (simp_all add: settle_twice Let_def)

subsection \<open>What a commit does, field by field\<close>

definition syncAudio :: "bool \<Rightarrow> page_state \<Rightarrow> audio_el \<Rightarrow> audio_el" where
  "syncAudio p s a0 =
     (let audio = a0\<lparr> loop := True \<rparr>;
          targetSrc = AUDIO_SOURCES (surface s) (weatherIntensity s);
          needsSrcChange = (src audio \<noteq> targetSrc);
          audio = (if needsSrcChange then set_src targetSrc audio else audio);
          audio = audio\<lparr> el_volume := volume s \<rparr>
      in if isMuted s then pause audio
         else if paused audio \<or> needsSrcChange then play p audio
         else audio)"

definition clearedTimers :: "world \<Rightarrow> timer list" where
  "clearedTimers w =
     (if thunderDeps w = Some (thunderKey (pend w)) then timers w
      else case thunderCleanup w of
             None \<Rightarrow> timers w
           | Some ref \<Rightarrow> filter (\<lambda>t. tid t \<noteq> timerRefs w ref) (timers w))"

lemma audioEffect_eq:
  "audioEffect w =
     (case audioRef w of None \<Rightarrow> w
      | Some a \<Rightarrow> w\<lparr> audioRef := Some (syncAudio (permit w) (st w) a) \<rparr>)"
  by (simp add: audioEffect_def syncAudio_def Let_def split: option.split)

lemma useAudio_eq:
  "useAudio w =
     (if audioDeps w = Some (audioKey (st w)) then w
      else w\<lparr> audioRef := map_option (syncAudio (permit w) (st w)) (audioRef w),
             audioDeps := Some (audioKey (st w)) \<rparr>)"
  by (cases "audioRef w") (simp_all add: useAudio_def audioEffect_eq)

lemma syncAudio_src [simp]:
  "src (syncAudio p s a) = AUDIO_SOURCES (surface s) (weatherIntensity s)"
  by (simp add: syncAudio_def Let_def set_src_def play_def pause_def)

lemma syncAudio_volume [simp]: "el_volume (syncAudio p s a) = volume s"
  by (simp add: syncAudio_def Let_def set_src_def play_def pause_def)

lemma commit_eq:
  "commit random w =
     useThunder random
       (w\<lparr> st := pend w, timers := clearedTimers w,
          audioRef := (if audioDeps w = Some (audioKey (pend w)) then audioRef w
                       else map_option (syncAudio (permit w) (pend w)) (audioRef w)),
          audioDeps := Some (audioKey (pend w)),
          pend := (pend w)\<lparr> volume := (if volumeDeps w = Some (windowOpen (pend w))
                                         then volume (pend w)
                                         else if windowOpen (pend w) then lit 8 10
                                         else lit 3 10) \<rparr>,
          volumeDeps := Some (windowOpen (pend w)) \<rparr>)"
proof -
  have 1: "cleanupThunder (w\<lparr> st := pend w \<rparr>) = w\<lparr> st := pend w, timers := clearedTimers w \<rparr>"
    by (simp add: cleanupThunder_eq clearedTimers_def split: option.split)
  show ?thesis
    unfolding commit_def 1
    by (rule arg_cong[where f = "useThunder random"]) (simp add: useAudio_eq useVolume_eq)
qed

lemma commit_audioRef:
  "audioRef (commit random w) =
     (if audioDeps w = Some (audioKey (pend w)) then audioRef w
      else map_option (syncAudio (permit w) (pend w)) (audioRef w))"
  by (simp add: commit_eq useThunder_eq)

lemma commit_frame [simp]:
  "now (commit random w) = now w"
  "flashes (commit random w) = flashes w"
  "permit (commit random w) = permit w"
  "thunderAudioRef (commit random w) = thunderAudioRef w"
  by (simp_all add: commit_eq useThunder_eq)

lemma commit_timers:
  "timers (commit random w) =
     (if thunderDeps w = Some (thunderKey (pend w)) then timers w
      else if weatherIntensity (pend w) \<noteq> Heavy then clearedTimers w
      else clearedTimers w @
             [\<lparr> tid = nextTimer w,
                due = now w + thunderDelay (random (draws w)),
                act = AutoThunder (isMuted (pend w)) (windowOpen (pend w)) (nextRef w) \<rparr>])"
  by (simp add: commit_eq useThunder_eq thunderKey_def clearedTimers_def)

lemma commit_counters:
  "nextTimer (commit random w) =
     (if thunderDeps w \<noteq> Some (thunderKey (pend w)) \<and> weatherIntensity (pend w) = Heavy
      then Suc (nextTimer w) else nextTimer w)"
  "draws (commit random w) =
     (if thunderDeps w \<noteq> Some (thunderKey (pend w)) \<and> weatherIntensity (pend w) = Heavy
      then Suc (draws w) else draws w)"
  by (simp_all add: commit_eq useThunder_eq thunderKey_def)

subsection \<open>Settled worlds\<close>

definition settled :: "world \<Rightarrow> bool" where
  "settled w \<longleftrightarrow>
     pend w = st w \<and> audioDeps w = Some (audioKey (st w)) \<and>
     volumeDeps w = Some (volumeKey (st w)) \<and> thunderDeps w = Some (thunderKey (st w))"

lemma commit_settled:
  assumes "pend (commit random w) = st (commit random w)"
  shows "settled (commit random w)"
  using assms by (simp add: settled_def volumeKey_def)

lemma commit_commit_settled: "settled (commit random (commit random w))"
proof -
  have "pend (commit random (commit random w)) = pend (commit random w)"
    by (rule commit_pend_clean) simp_all
  then show ?thesis by (simp add: settled_def volumeKey_def audioKey_def thunderKey_def)
qed

lemma settle_settled: "settled (settle random w)"
  by (simp add: settle_twice Let_def commit_settled commit_commit_settled)

lemma settle_frame [simp]:
  "now (settle random w) = now w"
  "flashes (settle random w) = flashes w"
  "permit (settle random w) = permit w"
  "thunderAudioRef (settle random w) = thunderAudioRef w"
  by (simp_all add: settle_twice Let_def)

lemma settle_keys [simp]:
  "windowOpen (st (settle random w)) = windowOpen (pend w)"
  "weatherIntensity (st (settle random w)) = weatherIntensity (pend w)"
  "isMuted (st (settle random w)) = isMuted (pend w)"
  "surface (st (settle random w)) = surface (pend w)"
  "timeOfDay (st (settle random w)) = timeOfDay (pend w)"
  "showControls (st (settle random w)) = showControls (pend w)"
  "enableManualThunder (st (settle random w)) = enableManualThunder (pend w)"
  by (simp_all add: settle_twice Let_def)

subsection \<open>Volume and audio source\<close>

definition volOk :: "world \<Rightarrow> bool" where
  "volOk w \<longleftrightarrow>
     (\<forall>b. volumeDeps w = Some b \<longrightarrow> volume (pend w) = (if b then lit 8 10 else lit 3 10))"

definition audOk :: "world \<Rightarrow> bool" where
  "audOk w \<longleftrightarrow>
     (\<forall>i m v s a. audioDeps w = Some (i, m, v, s) \<longrightarrow> audioRef w = Some a \<longrightarrow>
        src a = AUDIO_SOURCES s i \<and> el_volume a = v)"

definition refsOk :: "world \<Rightarrow> bool" where
  "refsOk w \<longleftrightarrow> audioRef w \<noteq> None \<and> thunderAudioRef w \<noteq> None"

lemma commit_volOk: "volOk w \<Longrightarrow> volOk (commit random w)"
  by (auto simp: volOk_def commit_pend)

lemma commit_audOk: "audOk w \<Longrightarrow> audOk (commit random w)"
  by (auto simp: audOk_def commit_audioRef audioKey_def)

lemma commit_refsOk: "refsOk w \<Longrightarrow> refsOk (commit random w)"
  by (auto simp: refsOk_def commit_audioRef)

lemma settle_volOk: "volOk w \<Longrightarrow> volOk (settle random w)"
  by (simp add: settle_twice Let_def commit_volOk)

lemma settle_audOk: "audOk w \<Longrightarrow> audOk (settle random w)"
  by (simp add: settle_twice Let_def commit_audOk)

lemma settle_refsOk: "refsOk w \<Longrightarrow> refsOk (settle random w)"
  by (simp add: settle_twice Let_def commit_refsOk)

subsection \<open>What the handlers do\<close>

lemma AUDIO_SOURCES_intensity: "AUDIO_SOURCES s i = AUDIO_SOURCES s j"
  by (cases s; cases i; cases j) simp_all

lemma triggerThunder_eq:
  "triggerThunder m wo w =
     w\<lparr> pend := (pend w)\<lparr> isThundering := True \<rparr>,
        flashes := flashes w @ [now w],
        thunderAudioRef :=
          (if m then thunderAudioRef w
           else map_option
                  (\<lambda>a. play (permit w) (a\<lparr> currentTime := 0, el_volume := (if wo then 1 else 1/2) \<rparr>))
                  (thunderAudioRef w)),
        timers := timers w @ [\<lparr> tid = nextTimer w, due = now w + 1000, act = ClearFlash \<rparr>],
        nextTimer := Suc (nextTimer w) \<rparr>"
  by (cases "thunderAudioRef w") (simp_all add: triggerThunder_def Let_def)

lemma triggerManualThunder_eq:
  "triggerManualThunder w = triggerThunder (isMuted (st w)) (windowOpen (st w)) w"
  by (simp add: triggerManualThunder_def triggerThunder_def)

lemma runCallback_auto_eq:
  "runCallback random (AutoThunder m wo ref) w =
     w\<lparr> pend := (pend w)\<lparr> isThundering := True \<rparr>,
        flashes := flashes w @ [now w],
        thunderAudioRef :=
          (if m then thunderAudioRef w
           else map_option
                  (\<lambda>a. play (permit w) (a\<lparr> currentTime := 0, el_volume := (if wo then 1 else 1/2) \<rparr>))
                  (thunderAudioRef w)),
        timers := timers w @
          [\<lparr> tid = nextTimer w, due = now w + 1000, act = ClearFlash \<rparr>,
           \<lparr> tid = Suc (nextTimer w),
              due = now w + thunderDelay (random (draws w)),
              act = AutoThunder m wo ref \<rparr>],
        nextTimer := Suc (Suc (nextTimer w)),
        draws := Suc (draws w),
        timerRefs := (timerRefs w)(ref := Suc (nextTimer w)) \<rparr>"
  by (simp add: triggerThunder_eq randomInterval_eq)

lemma handleIntensityChange_eq:
  "handleIntensityChange i w =
     w\<lparr> pend := (pend w)\<lparr> weatherIntensity := i, isMuted := False \<rparr>,
        audioRef :=
          (case audioRef w of None \<Rightarrow> None
           | Some a \<Rightarrow>
               if src a \<noteq> AUDIO_SOURCES (surface (st w)) i
               then Some (play (permit w) (set_src (AUDIO_SOURCES (surface (st w)) i) a))
               else Some a) \<rparr>"
  by (cases "audioRef w") (simp_all add: handleIntensityChange_def Let_def)

lemma earliest_None: "earliest ts = None \<longleftrightarrow> ts = []"
  by (cases ts) (auto split: option.splits)

lemma earliest_mem: "earliest ts = Some t \<Longrightarrow> t \<in> set ts"
  by (induction ts arbitrary: t) (auto split: option.splits if_splits)

lemma earliest_least: "earliest ts = Some t \<Longrightarrow> u \<in> set ts \<Longrightarrow> due t \<le> due u"
proof (induction ts arbitrary: t)
  case Nil
  then show ?case by simp
next
  case (Cons a ts)
  show ?case
  proof (cases "earliest ts")
    case None
    then have "ts = []" by (simp add: earliest_None)
    with Cons.prems show ?thesis by simp
  next
    case (Some v)
    have v: "u \<in> set ts \<Longrightarrow> due v \<le> due u" using Cons.IH[OF Some] by simp
    from Cons.prems(1) Some have t: "t = (if due v < due a then v else a)"
      by (simp split: if_splits)
    from Cons.prems(2) have "u = a \<or> u \<in> set ts" by simp
    then show ?thesis using v t by (auto split: if_splits)
  qed
qed

declare runCallback.simps(1) [simp del]

lemma runCallback_frame [simp]:
  "st (runCallback random c w) = st w"
  "audioRef (runCallback random c w) = audioRef w"
  "audioDeps (runCallback random c w) = audioDeps w"
  "volumeDeps (runCallback random c w) = volumeDeps w"
  "thunderDeps (runCallback random c w) = thunderDeps w"
  "thunderCleanup (runCallback random c w) = thunderCleanup w"
  "now (runCallback random c w) = now w"
  "permit (runCallback random c w) = permit w"
  "nextRef (runCallback random c w) = nextRef w"
  "volume (pend (runCallback random c w)) = volume (pend w)"
  by (cases c, simp_all add: runCallback_auto_eq)+

lemmas handler_eqs = handleIntensityChange_eq triggerManualThunder_eq triggerThunder_eq

lemma handle_audioDeps [simp]: "audioDeps (handle random e w) = audioDeps w"
  by (cases e) (simp_all add: handler_eqs split: option.split)

lemma handle_volumeDeps [simp]: "volumeDeps (handle random e w) = volumeDeps w"
  by (cases e) (simp_all add: handler_eqs split: option.split)

lemma handle_thunderDeps [simp]: "thunderDeps (handle random e w) = thunderDeps w"
  by (cases e) (simp_all add: handler_eqs split: option.split)

lemma handle_thunderCleanup [simp]: "thunderCleanup (handle random e w) = thunderCleanup w"
  by (cases e) (simp_all add: handler_eqs split: option.split)

lemma handle_st [simp]: "st (handle random e w) = st w"
  by (cases e) (simp_all add: handler_eqs split: option.split)

lemma handle_volume [simp]: "volume (pend (handle random e w)) = volume (pend w)"
  by (cases e) (simp_all add: handler_eqs split: option.split)

lemma handle_volOk: "volOk w \<Longrightarrow> volOk (handle random e w)"
  by (simp add: volOk_def)

lemma handle_thunderAudioRef:
  "thunderAudioRef w \<noteq> None \<Longrightarrow> thunderAudioRef (handle random e w) \<noteq> None"
proof (cases e)
  case Fire
  assume a: "thunderAudioRef w \<noteq> None"
  then have "thunderAudioRef (runCallback random c (w\<lparr> timers := ts, now := n \<rparr>)) \<noteq> None"
    for c ts n by (cases c) (auto simp: runCallback_auto_eq)
  then show ?thesis using Fire a by (simp split: option.split)
qed (auto simp: handler_eqs)

lemma handle_audioRef:
  "audioRef w \<noteq> None \<Longrightarrow> audioRef (handle random e w) \<noteq> None"
  by (cases e)
    (auto simp: handleIntensityChange_eq triggerManualThunder_eq triggerThunder_eq
       split: option.split)

lemma handle_refsOk: "refsOk w \<Longrightarrow> refsOk (handle random e w)"
  by (simp add: refsOk_def handle_audioRef handle_thunderAudioRef)

lemma handle_audOk:
  assumes "audOk w" "settled w"
  shows "audOk (handle random e w)"
proof -
  have "audioRef (handle random e w) = audioRef w"
  proof (cases e)
    case (ClickIntensity i)
    show ?thesis
    proof (cases "audioRef w")
      case None
      then show ?thesis using ClickIntensity by (simp add: handleIntensityChange_eq)
    next
      case (Some a)
      have "audioDeps w = Some (weatherIntensity (st w), isMuted (st w), volume (st w), surface (st w))"
        using assms(2) by (simp add: settled_def audioKey_def)
      then have "src a = AUDIO_SOURCES (surface (st w)) (weatherIntensity (st w))"
        using assms(1) Some by (simp add: audOk_def)
      then have "src a = AUDIO_SOURCES (surface (st w)) i"
        using AUDIO_SOURCES_intensity by simp
      then show ?thesis using Some ClickIntensity by (simp add: handleIntensityChange_eq)
    qed
  qed (simp_all add: triggerManualThunder_eq triggerThunder_eq split: option.split)
  then show ?thesis using assms(1) by (simp add: audOk_def)
qed

lemma mul10000_le:
  assumes "is_draw r"
  shows "fl (r * 10000) \<le> 10000 - 1 / 2 ^ 39"
proof (cases "r * 10000 < 8192")
  case True
  have "0 \<le> r * 10000" using assms by (simp add: is_draw_def)
  then have "fl (r * 10000) \<le> 8192" using True double_8192 by (intro fl_le_double) simp_all
  then show ?thesis by simp
next
  case False
  have r: "r \<le> 1 - 1 / 2 ^ 53" by (rule draw_le_max[OF assms])
  have "fl (r * 10000) \<le> of_int (10000 * 2 ^ 39 - 1) * 2 powi (13 - 52)"
  proof (rule fl_le_grid)
    show "2 powi 13 \<le> r * 10000" using False by simp
    show "r * 10000 < 2 powi (13 + 1)" using r by simp
    show "- 1022 \<le> (13::int)" by simp
    show "r * 10000 < (of_int (10000 * 2 ^ 39 - 1) + 1/2) * 2 powi (13 - 52)"
      using r by (simp add: power_int_minus_divide)
  qed
  then show ?thesis by (simp add: power_int_minus_divide)
qed

lemma thunderDelay_range:
  assumes "is_draw r"
  shows "5000 \<le> thunderDelay r" and "thunderDelay r < 15000"
proof -
  have r0: "0 \<le> r * 10000" using assms by (simp add: is_draw_def)
  have y0: "0 \<le> fl (r * 10000)" by (rule fl_nonneg[OF r0])
  show "5000 \<le> thunderDelay r"
    unfolding thunderDelay_def js_add_def js_mul_def
    using y0 double_5000 by (intro double_le_fl) simp_all
  have "fl (5000 + fl (r * 10000)) \<le> 15000 - 1 / 2 ^ 39"
    using y0 mul10000_le[OF assms] double_delay_top by (intro fl_le_double) simp_all
  then show "thunderDelay r < 15000" by (simp add: thunderDelay_def js_add_def js_mul_def)
qed

subsection \<open>The handlers keep the timer invariants\<close>

lemma timersOk_filter': "timersOk w \<Longrightarrow> timersOk (w\<lparr> timers := filter P (timers w), now := n \<rparr>)"
  by (auto simp: timersOk_def distinct_map_filter)

lemma handle_timersOk:
  assumes "timersOk w"
  shows "timersOk (handle random e w)"
proof (cases e)
  case ClickTriggerThunder
  then show ?thesis using assms by (auto simp: timersOk_def handler_eqs less_Suc_eq)
next
  case Fire
  show ?thesis
  proof (cases "earliest (timers w)")
    case None
    then show ?thesis using Fire assms by simp
  next
    case (Some t)
    define w1 where "w1 = w\<lparr> timers := filter (\<lambda>u. tid u \<noteq> tid t) (timers w), now := max (now w) (due t) \<rparr>"
    have 1: "timersOk w1" unfolding w1_def by (rule timersOk_filter'[OF assms])
    have "timersOk (runCallback random c w1)" for c
      using 1 by (cases c) (auto simp: timersOk_def runCallback_auto_eq less_Suc_eq)
    then show ?thesis using Fire Some by (simp add: w1_def)
  qed
qed (use assms in \<open>simp_all add: timersOk_def handler_eqs\<close>)

lemma loopOk_cong:
  assumes "thunderDeps v = thunderDeps w" "thunderCleanup v = thunderCleanup w"
    "autoTimers v = autoTimers w" "timerRefs v = timerRefs w"
  shows "loopOk v = loopOk w"
  by (simp add: loopOk_def assms)

lemma autoTimers_remove_other:
  assumes "distinct (map tid ts)" "t \<in> set ts" "act t = ClearFlash"
  shows "filter (\<lambda>u. act u \<noteq> ClearFlash) (filter (\<lambda>u. tid u \<noteq> tid t) ts)
       = filter (\<lambda>u. act u \<noteq> ClearFlash) ts"
proof -
  have "u \<in> set ts \<Longrightarrow> act u \<noteq> ClearFlash \<Longrightarrow> tid u \<noteq> tid t" for u
    using assms by (metis distinct_map inj_onD)
  then show ?thesis by (auto intro: filter_cong)
qed

lemma handle_loopOk:
  assumes "timersOk w" "loopOk w"
  shows "loopOk (handle random e w)"
proof (cases e)
  case (ClickIntensity i)
  have "loopOk (handleIntensityChange i w) = loopOk w"
    by (rule loopOk_cong) (simp_all add: handler_eqs autoTimers_def)
  then show ?thesis using assms ClickIntensity by simp
next
  case ClickTriggerThunder
  have "loopOk (triggerManualThunder w) = loopOk w"
    by (rule loopOk_cong) (simp_all add: handler_eqs autoTimers_def)
  then show ?thesis using assms ClickTriggerThunder by simp
next
  case Fire
  show ?thesis
  proof (cases "earliest (timers w)")
    case None
    then show ?thesis using Fire assms by simp
  next
    case (Some t)
    have t: "t \<in> set (timers w)" using Some by (rule earliest_mem)
    have d: "distinct (map tid (timers w))" using assms(1) by (simp add: timersOk_def)
    define w1 where "w1 = w\<lparr> timers := filter (\<lambda>u. tid u \<noteq> tid t) (timers w), now := max (now w) (due t) \<rparr>"
    have h: "handle random e w = runCallback random (act t) w1"
      using Fire Some by (simp add: w1_def)
    show ?thesis
    proof (cases "act t")
      case ClearFlash
      have "autoTimers w1 = autoTimers w"
        unfolding w1_def autoTimers_def using autoTimers_remove_other[OF d t ClearFlash] by simp
      then have "loopOk (runCallback random ClearFlash w1) = loopOk w"
        by (intro loopOk_cong) (simp_all add: autoTimers_def w1_def)
      then show ?thesis using assms(2) h ClearFlash by simp
    next
      case (AutoThunder m wo ref)
      have ta: "t \<in> set (autoTimers w)" using t AutoThunder by (simp add: autoTimers_def)
      then have ne: "autoTimers w \<noteq> []" by auto
      then obtain m' wo' where deps: "thunderDeps w = Some (Heavy, m', wo')"
        using assms(2) by (auto simp: loopOk_def)
      then obtain r d' where c: "thunderCleanup w = Some r"
        and a: "autoTimers w = [\<lparr> tid = timerRefs w r, due = d', act = AutoThunder m' wo' r \<rparr>]"
        using assms(2) by (auto simp: loopOk_def)
      from ta a have teq: "t = \<lparr> tid = timerRefs w r, due = d', act = AutoThunder m' wo' r \<rparr>" by simp
      with AutoThunder have same: "m' = m" "wo' = wo" "r = ref" by simp_all
      have "autoTimers w1 = filter (\<lambda>u. tid u \<noteq> tid t) (autoTimers w)"
        by (simp add: w1_def autoTimers_def conj_commute)
      then have e: "autoTimers w1 = []" using a teq by simp
      have "autoTimers (runCallback random (AutoThunder m wo ref) w1)
          = [\<lparr> tid = Suc (nextTimer w1),
               due = now w1 + thunderDelay (random (draws w1)),
               act = AutoThunder m wo ref \<rparr>]"
        using e by (simp add: runCallback_auto_eq autoTimers_def)
      then show ?thesis
        using h AutoThunder deps c same
        by (simp add: loopOk_def) (simp add: runCallback_auto_eq w1_def)
    qed
  qed
qed (use assms(2) in \<open>simp_all add: loopOk_def autoTimers_def\<close>)

subsection \<open>Timers are never overdue\<close>

definition timeOk :: "world \<Rightarrow> bool" where
  "timeOk w \<longleftrightarrow> (\<forall>t \<in> set (timers w). now w \<le> due t)"

lemma clearedTimers_subset: "set (clearedTimers w) \<subseteq> set (timers w)"
  by (auto simp: clearedTimers_def split: option.splits)

lemma commit_timeOk:
  assumes "\<forall>k. is_draw (random k)" "timeOk w"
  shows "timeOk (commit random w)"
proof -
  have "0 \<le> thunderDelay (random (draws w))"
    using thunderDelay_range(1)[of "random (draws w)"] assms(1) by simp
  then show ?thesis
    using assms(2) clearedTimers_subset[of w] by (auto simp: timeOk_def commit_timers)
qed

lemma settle_timeOk:
  assumes "\<forall>k. is_draw (random k)" "timeOk w"
  shows "timeOk (settle random w)"
  using assms by (simp add: settle_twice Let_def commit_timeOk)

lemma handle_timeOk:
  assumes "\<forall>k. is_draw (random k)" "timeOk w"
  shows "timeOk (handle random e w)"
proof (cases e)
  case Fire
  show ?thesis
  proof (cases "earliest (timers w)")
    case None
    then show ?thesis using Fire assms by simp
  next
    case (Some t)
    define w1 where "w1 = w\<lparr> timers := filter (\<lambda>u. tid u \<noteq> tid t) (timers w), now := max (now w) (due t) \<rparr>"
    have "now w \<le> due t" using assms(2) earliest_mem[OF Some] by (simp add: timeOk_def)
    then have n: "now w1 = due t" by (simp add: w1_def)
    have 1: "timeOk w1"
      using earliest_least[OF Some] by (auto simp: timeOk_def w1_def n[unfolded w1_def])
    have "0 \<le> thunderDelay (random (draws w1))"
      using thunderDelay_range(1)[of "random (draws w1)"] assms(1) by simp
    then have "timeOk (runCallback random c w1)" for c
      using 1 by (cases c) (auto simp: timeOk_def runCallback_auto_eq)
    then show ?thesis using Fire Some by (simp add: w1_def)
  qed
qed (use assms(2) in \<open>auto simp: timeOk_def handler_eqs\<close>)

subsection \<open>The invariant of reachable worlds\<close>

definition inv :: "world \<Rightarrow> bool" where
  "inv w \<longleftrightarrow> settled w \<and> timersOk w \<and> loopOk w \<and> volOk w \<and> audOk w \<and> refsOk w"

lemma inv_mounted: "inv (mounted random p)"
proof -
  have "timersOk (initial p)" "loopOk (initial p)" "volOk (initial p)" "audOk (initial p)"
    "refsOk (initial p)"
    by (simp_all add: initial_def timersOk_def loopOk_def autoTimers_def volOk_def audOk_def
        refsOk_def)
  then show ?thesis
    unfolding inv_def mounted_def
    by (intro conjI settle_settled settle_ok settle_volOk settle_audOk settle_refsOk)
qed

lemma inv_step:
  assumes "inv w"
  shows "inv (step random e w)"
proof -
  from assms have "timersOk (handle random e w)" "loopOk (handle random e w)"
    "volOk (handle random e w)" "audOk (handle random e w)" "refsOk (handle random e w)"
    by (simp_all add: inv_def handle_timersOk handle_loopOk handle_volOk handle_audOk
        handle_refsOk)
  then show ?thesis
    unfolding inv_def step_def
    by (intro conjI settle_settled settle_ok settle_volOk settle_audOk settle_refsOk)
qed

lemma reachable_inv: "reachable random w \<Longrightarrow> inv w"
  by (induction rule: reachable.induct) (simp_all add: inv_mounted inv_step)

lemma reachable_timeOk:
  assumes "\<forall>k. is_draw (random k)" "reachable random w"
  shows "timeOk w"
  using assms(2)
proof (induction rule: reachable.induct)
  case (mount p)
  have "timeOk (initial p)" by (simp add: timeOk_def initial_def)
  then show ?case unfolding mounted_def by (rule settle_timeOk[OF assms(1)])
next
  case (event w e)
  then show ?case unfolding step_def by (intro settle_timeOk handle_timeOk assms(1))
qed

lemma reachable_run: "reachable random w \<Longrightarrow> reachable random (run random es w)"
  by (induction es arbitrary: w) (simp_all add: reachable.event)

text \<open>What the invariant says about the state of a render.\<close>

lemma inv_volume:
  assumes "inv w"
  shows "volume (st w) = (if windowOpen (st w) then lit 8 10 else lit 3 10)"
  using assms by (auto simp: inv_def settled_def volOk_def volumeKey_def)

lemma inv_audio:
  assumes "inv w"
  shows "\<exists>a. audioRef w = Some a \<and> src a = AUDIO_SOURCES (surface (st w)) (weatherIntensity (st w))
           \<and> el_volume a = volume (st w)"
  using assms by (auto simp: inv_def settled_def audOk_def refsOk_def audioKey_def)

lemma inv_quiet:
  assumes "inv w" "weatherIntensity (st w) \<noteq> Heavy"
  shows "autoTimers w = []" and "thunderCleanup w = None"
  using assms by (auto simp: inv_def settled_def loopOk_def thunderKey_def)

lemma inv_heavy:
  assumes "inv w" "weatherIntensity (st w) = Heavy"
  shows "\<exists>ref d. thunderCleanup w = Some ref \<and>
           autoTimers w = [\<lparr> tid = timerRefs w ref, due = d,
                             act = AutoThunder (isMuted (st w)) (windowOpen (st w)) ref \<rparr>]"
  using assms by (auto simp: inv_def settled_def loopOk_def thunderKey_def)

subsection \<open>The second render changes neither the timers nor, with the volume in place, the audio\<close>

lemma commit_clean_thunder:
  assumes "thunderDeps w = Some (thunderKey (pend w))"
  shows "timers (commit random w) = timers w" "nextTimer (commit random w) = nextTimer w"
    "draws (commit random w) = draws w" "timerRefs (commit random w) = timerRefs w"
    "thunderCleanup (commit random w) = thunderCleanup w" "nextRef (commit random w) = nextRef w"
  using assms by (simp_all add: commit_eq useThunder_eq clearedTimers_def)

lemma settle_thunder:
  "timers (settle random w) = timers (commit random w)"
  "nextTimer (settle random w) = nextTimer (commit random w)"
  "draws (settle random w) = draws (commit random w)"
  "timerRefs (settle random w) = timerRefs (commit random w)"
  "thunderCleanup (settle random w) = thunderCleanup (commit random w)"
  "nextRef (settle random w) = nextRef (commit random w)"
  by (simp_all add: settle_twice Let_def commit_clean_thunder)

lemma settle_audioRef:
  assumes "volumeDeps w = Some (windowOpen (pend w))"
  shows "audioRef (settle random w) = audioRef (commit random w)"
proof -
  have "audioKey (pend (commit random w)) = audioKey (pend w)"
    using assms by (simp add: commit_pend audioKey_def)
  then have "audioRef (commit random (commit random w)) = audioRef (commit random w)"
    by (simp add: commit_audioRef)
  then show ?thesis by (simp add: settle_twice Let_def)
qed

lemma settle_isThundering:
  "isThundering (st (settle random w)) \<Longrightarrow> isThundering (pend w)"
  by (simp add: settle_twice Let_def commit_pend split: if_splits)

lemma handle_audioRef_same:
  assumes "inv w"
  shows "audioRef (handle random e w) = audioRef w"
proof (cases e)
  case (ClickIntensity i)
  obtain a where "audioRef w = Some a"
    "src a = AUDIO_SOURCES (surface (st w)) (weatherIntensity (st w))"
    using inv_audio[OF assms] by blast
  then show ?thesis
    using ClickIntensity AUDIO_SOURCES_intensity[of "surface (st w)" "weatherIntensity (st w)" i]
    by (simp add: handleIntensityChange_eq)
qed (simp_all add: handler_eqs split: option.split)

lemma syncAudio_calls:
  "calls (syncAudio p s a) =
     calls a @
     (if src a \<noteq> AUDIO_SOURCES (surface s) (weatherIntensity s)
      then [Load (AUDIO_SOURCES (surface s) (weatherIntensity s))] else []) @
     (if isMuted s then [Pause]
      else if paused a \<or> src a \<noteq> AUDIO_SOURCES (surface s) (weatherIntensity s) then [Play]
      else [])"
  by (simp add: syncAudio_def Let_def set_src_def play_def pause_def)

subsection \<open>Test worlds\<close>

definition mutedWorld :: world where
  "mutedWorld = step halfDraws (SwitchSound False) (mounted halfDraws False)"

definition openWorld :: world where
  "openWorld = step halfDraws (SwitchWindow True) (mounted halfDraws False)"

text \<open>
  Claim C9: selecting an intensity through the intensity control always sets \<open>isMuted\<close> to
  false as well as \<open>weatherIntensity\<close> to the selected value, both in the updates queued by
  \<open>handleIntensityChange\<close> and in the state of the render that follows.
\<close>

theorem intensity_click_unmutes:
  "\<not> isMuted (pend (handleIntensityChange i w)) \<and>
   weatherIntensity (pend (handleIntensityChange i w)) = i \<and>
   \<not> isMuted (st (step random (ClickIntensity i) w)) \<and>
   weatherIntensity (st (step random (ClickIntensity i) w)) = i"
  by (simp add: step_def handleIntensityChange_eq)

theorem intensity_click_unmutes_witness:
  "isMuted (st mutedWorld) \<and> weatherIntensity (st mutedWorld) = Medium \<and>
   \<not> isMuted (st (step halfDraws (ClickIntensity Medium) mutedWorld)) \<and>
   weatherIntensity (st (step halfDraws (ClickIntensity Medium) mutedWorld)) = Medium"
proof -
  have a: "isMuted (st mutedWorld)" "weatherIntensity (st mutedWorld) = Medium"
    by code_simp+
  from intensity_click_unmutes[of Medium mutedWorld halfDraws] a show ?thesis by blast
qed

text \<open>
  Counterexample to claim C3 as stated: the first render has the window closed and the volume
  0.5, which the audio effect of that render writes to the audio element; and the render that
  follows the opening of the window still has the volume 0.3.
\<close>

theorem volume_other_values_counterexample:
  "\<not> windowOpen (st (initial False)) \<and> volume (st (initial False)) = 1/2 \<and>
   volume (st (initial False)) \<noteq> lit 3 10 \<and>
   map_option el_volume (audioRef (commit halfDraws (initial False))) = Some (1/2) \<and>
   windowOpen (st (commit halfDraws (handle halfDraws (SwitchWindow True) (mounted halfDraws False)))) \<and>
   volume (st (commit halfDraws (handle halfDraws (SwitchWindow True) (mounted halfDraws False))))
     \<noteq> lit 8 10"
  by code_simp

text \<open>
  Claim C3, amended: in every world reached once the effects of an event (or of the mount) have
  been flushed, the volume state is the Number 0.8 when the window is open and the Number 0.3
  when it is closed, and the audio element plays at that volume.
\<close>

theorem volume_tracks_window:
  assumes "reachable random w"
  shows "volume (st w) = (if windowOpen (st w) then lit 8 10 else lit 3 10) \<and>
         (\<exists>a. audioRef w = Some a \<and> el_volume a = volume (st w))"
  using inv_volume[OF reachable_inv[OF assms]] inv_audio[OF reachable_inv[OF assms]] by blast

theorem volume_tracks_window_witness:
  "reachable halfDraws openWorld \<and> windowOpen (st openWorld) \<and> volume (st openWorld) = lit 8 10 \<and>
   map_option el_volume (audioRef openWorld) = Some (lit 8 10)"
proof -
  have r: "reachable halfDraws openWorld"
    unfolding openWorld_def by (intro reachable.intros)
  have o: "windowOpen (st openWorld)" by code_simp
  from volume_tracks_window[OF r] o r show ?thesis by auto
qed

text \<open>
  Claim C5: for every surface the audio source map gives the same address for the three
  intensities; so in a reachable world the target of an intensity change is the source the
  element already has, and \<open>handleIntensityChange\<close> leaves the element as it is.
\<close>

theorem audio_sources_ignore_intensity:
  "AUDIO_SOURCES s Light = AUDIO_SOURCES s Medium \<and>
   AUDIO_SOURCES s Medium = AUDIO_SOURCES s Heavy \<and>
   (reachable random w \<longrightarrow>
      (\<exists>a. audioRef w = Some a \<and> AUDIO_SOURCES (surface (st w)) i = src a \<and>
            audioRef (handleIntensityChange i w) = Some a))"
proof -
  have "\<exists>a. audioRef w = Some a \<and> AUDIO_SOURCES (surface (st w)) i = src a \<and>
            audioRef (handleIntensityChange i w) = Some a" if r: "reachable random w"
  proof -
    obtain a where a: "audioRef w = Some a"
      "src a = AUDIO_SOURCES (surface (st w)) (weatherIntensity (st w))"
      using inv_audio[OF reachable_inv[OF r]] by blast
    have "audioRef (handle random (ClickIntensity i) w) = audioRef w"
      by (rule handle_audioRef_same[OF reachable_inv[OF r]])
    then show ?thesis
      using a AUDIO_SOURCES_intensity[of "surface (st w)" i "weatherIntensity (st w)"] by simp
  qed
  then show ?thesis using AUDIO_SOURCES_intensity by blast
qed

theorem audio_sources_ignore_intensity_witness:
  "reachable halfDraws openWorld \<and>
   map_option src (audioRef openWorld) = Some (AUDIO_SOURCES Glass Heavy) \<and>
   audioRef (handleIntensityChange Heavy openWorld) = audioRef openWorld"
proof -
  have r: "reachable halfDraws openWorld"
    unfolding openWorld_def by (intro reachable.intros)
  have s: "surface (st openWorld) = Glass" by code_simp
  from audio_sources_ignore_intensity[of Glass halfDraws openWorld Heavy] r s
  show ?thesis by auto
qed

text \<open>
  Claim C2: when the surface or the intensity changes while the sound is on, the source of the
  ambient audio element is swapped, and playback attempted, if and only if the target
  \<open>AUDIO_SOURCES[surface][intensity]\<close> differs from the source the element has: the calls made
  on the element are then exactly a load of the target followed by \<open>play()\<close>; when the two are
  equal no load is made and the source stays as it is.
\<close>

theorem audio_swap_iff_source_differs:
  assumes "reachable random w" "\<not> isMuted (st w)" "e = SelectSurface s \<or> e = ClickIntensity i"
  shows "\<exists>a a' new. audioRef w = Some a \<and> audioRef (step random e w) = Some a' \<and>
           calls a' = calls a @ new \<and>
           src a' = AUDIO_SOURCES (surface (st (step random e w)))
                      (weatherIntensity (st (step random e w))) \<and>
           (src a \<noteq> src a' \<longrightarrow> new = [Load (src a'), Play]) \<and>
           (src a = src a' \<longrightarrow> (\<forall>u. Load u \<notin> set new))"
proof -
  note i = reachable_inv[OF assms(1)]
  obtain a where a: "audioRef w = Some a"
    "src a = AUDIO_SOURCES (surface (st w)) (weatherIntensity (st w))"
    using inv_audio[OF i] by blast
  define x where "x = handle random e w"
  have s: "pend w = st w" "audioDeps w = Some (audioKey (st w))"
    "volumeDeps w = Some (windowOpen (st w))"
    using i by (simp_all add: inv_def settled_def volumeKey_def)
  have xa: "audioRef x = Some a" unfolding x_def using handle_audioRef_same[OF i] a by simp
  have xm: "\<not> isMuted (pend x)" "windowOpen (pend x) = windowOpen (st w)"
    using assms(2,3) s(1) by (auto simp: x_def handleIntensityChange_eq)
  have xv: "volumeDeps x = Some (windowOpen (pend x))" using s(3) xm(2) by (simp add: x_def)
  have keys: "surface (st (step random e w)) = surface (pend x)"
    "weatherIntensity (st (step random e w)) = weatherIntensity (pend x)"
    by (simp_all add: step_def x_def)
  have r: "audioRef (step random e w) =
      (if audioDeps x = Some (audioKey (pend x)) then Some a
       else Some (syncAudio (permit x) (pend x) a))"
    unfolding step_def x_def[symmetric] using settle_audioRef[OF xv] xa
    by (simp add: commit_audioRef)
  show ?thesis
  proof (cases "audioDeps x = Some (audioKey (pend x))")
    case True
    then have "audioKey (pend x) = audioKey (st w)" using s(2) by (simp add: x_def)
    then have "surface (pend x) = surface (st w)" "weatherIntensity (pend x) = weatherIntensity (st w)"
      by (simp_all add: audioKey_def)
    then have "src a = AUDIO_SOURCES (surface (st (step random e w)))
        (weatherIntensity (st (step random e w)))"
      using a(2) keys by simp
    moreover have "audioRef (step random e w) = Some a" using r True by simp
    ultimately show ?thesis using a(1) by (intro exI[of _ a] exI[of _ "[]"]) simp
  next
    case False
    define a' where "a' = syncAudio (permit x) (pend x) a"
    have 1: "audioRef (step random e w) = Some a'" using r False by (simp add: a'_def)
    have 2: "src a' = AUDIO_SOURCES (surface (st (step random e w)))
        (weatherIntensity (st (step random e w)))"
      by (simp add: a'_def keys)
    have 3: "calls a' = calls a @
        (if src a \<noteq> src a' then [Load (src a')] else []) @
        (if paused a \<or> src a \<noteq> src a' then [Play] else [])"
      using xm(1) by (simp add: a'_def syncAudio_calls)
    show ?thesis
      using a(1) 1 2 3
      by (intro exI[of _ a] exI[of _ a']
          exI[of _ "(if src a \<noteq> src a' then [Load (src a')] else []) @
            (if paused a \<or> src a \<noteq> src a' then [Play] else [])"]) auto
  qed
qed

definition soundWorld :: world where
  "soundWorld = mounted halfDraws True"

theorem audio_swap_iff_source_differs_witness:
  "reachable halfDraws soundWorld \<and> \<not> isMuted (st soundWorld) \<and>
   (\<exists>a a'. audioRef soundWorld = Some a \<and>
      audioRef (step halfDraws (SelectSurface Metal) soundWorld) = Some a' \<and>
      src a \<noteq> src a' \<and> calls a' = calls a @ [Load (src a'), Play])"
proof -
  have r: "reachable halfDraws soundWorld" unfolding soundWorld_def by (rule reachable.mount)
  have m: "\<not> isMuted (st soundWorld)" by code_simp
  have g: "map_option src (audioRef soundWorld) = Some (AUDIO_SOURCES Glass Medium)"
    "weatherIntensity (st (step halfDraws (SelectSurface Metal) soundWorld)) = Medium"
    "surface (st (step halfDraws (SelectSurface Metal) soundWorld)) = Metal"
    by code_simp+
  obtain a a' new where p: "audioRef soundWorld = Some a"
    "audioRef (step halfDraws (SelectSurface Metal) soundWorld) = Some a'"
    "calls a' = calls a @ new"
    "src a' = AUDIO_SOURCES (surface (st (step halfDraws (SelectSurface Metal) soundWorld)))
       (weatherIntensity (st (step halfDraws (SelectSurface Metal) soundWorld)))"
    "src a \<noteq> src a' \<longrightarrow> new = [Load (src a'), Play]"
    using audio_swap_iff_source_differs[OF r m, of "SelectSurface Metal" Metal Light] by blast
  have "src a' = AUDIO_SOURCES Metal Medium" using p(4) g(2,3) by simp
  moreover have "src a = AUDIO_SOURCES Glass Medium" using p(1) g(1) by simp
  ultimately have "src a \<noteq> src a'" by simp
  with p r m show ?thesis by auto
qed

subsection \<open>Events that need one render only\<close>

lemma settle_clean:
  assumes "volumeDeps w = Some (windowOpen (pend w))" "thunderDeps w = Some (thunderKey (pend w))"
  shows "settle random w = commit random w"
  using commit_pend_clean[OF assms, of random] by (simp add: settle_twice Let_def)

subsection \<open>A pending flash reset stays pending until it fires\<close>

lemma distinct_tid_eq:
  assumes "distinct (map tid ts)" "t \<in> set ts" "u \<in> set ts" "tid t = tid u"
  shows "t = u"
  using assms by (metis distinct_map inj_onD)

lemma clearFlash_cleared:
  assumes "timersOk w" "loopOk w" "t \<in> set (timers w)" "act t = ClearFlash"
  shows "t \<in> set (clearedTimers w)"
proof (cases "thunderCleanup w")
  case None
  then show ?thesis using assms(3) by (simp add: clearedTimers_def)
next
  case (Some ref)
  then obtain m wo d where
    a: "autoTimers w = [\<lparr> tid = timerRefs w ref, due = d, act = AutoThunder m wo ref \<rparr>]"
    using assms(2) by (auto simp: loopOk_def)
  define u where "u = \<lparr> tid = timerRefs w ref, due = d, act = AutoThunder m wo ref \<rparr>"
  have "u \<in> set (autoTimers w)" using a by (simp add: u_def)
  then have u: "u \<in> set (timers w)" by (simp add: autoTimers_def)
  have "t \<noteq> u" using assms(4) by (auto simp: u_def)
  then have "tid t \<noteq> tid u"
    using distinct_tid_eq[OF _ assms(3) u] assms(1) by (auto simp: timersOk_def)
  then show ?thesis using assms(3) Some by (simp add: clearedTimers_def u_def)
qed

lemma clearFlash_settle:
  assumes "timersOk w" "loopOk w" "t \<in> set (timers w)" "act t = ClearFlash"
  shows "t \<in> set (timers (settle random w))"
  using clearFlash_cleared[OF assms] assms(3) by (simp add: settle_thunder commit_timers)

lemma timers_handle:
  assumes "timersOk w" "t \<in> set (timers w)"
  shows "t \<in> set (timers (handle random e w)) \<or> (e = Fire \<and> earliest (timers w) = Some t)"
proof (cases e)
  case Fire
  show ?thesis
  proof (cases "earliest (timers w)")
    case None
    then show ?thesis using Fire assms(2) by simp
  next
    case (Some t0)
    show ?thesis
    proof (cases "t0 = t")
      case True
      then show ?thesis using Fire Some by simp
    next
      case False
      have "tid t \<noteq> tid t0"
        using distinct_tid_eq[OF _ assms(2) earliest_mem[OF Some]] assms(1) False
        by (auto simp: timersOk_def)
      then have "t \<in> set (timers (runCallback random c
          (w\<lparr> timers := filter (\<lambda>u. tid u \<noteq> tid t0) (timers w), now := n \<rparr>)))" for c n
        using assms(2) by (cases c) (simp_all add: runCallback_auto_eq)
      then show ?thesis using Fire Some by simp
    qed
  qed
qed (use assms(2) in \<open>simp_all add: handler_eqs\<close>)

lemma clearFlash_step:
  assumes "inv w" "t \<in> set (timers w)" "act t = ClearFlash"
  shows "t \<in> set (timers (step random e w)) \<or> (e = Fire \<and> earliest (timers w) = Some t)"
proof -
  have ok: "timersOk w" "loopOk w" using assms(1) by (simp_all add: inv_def)
  from timers_handle[OF ok(1) assms(2), of random e]
  show ?thesis
  proof
    assume "t \<in> set (timers (handle random e w))"
    then have "t \<in> set (timers (step random e w))"
      unfolding step_def
      by (intro clearFlash_settle handle_timersOk handle_loopOk ok assms(3))
    then show ?thesis by simp
  qed simp
qed

lemma clearFlash_run:
  assumes "reachable random w" "t \<in> set (timers w)" "act t = ClearFlash"
  shows "t \<in> set (timers (run random es w)) \<or>
         (\<exists>es1 es2. es = es1 @ Fire # es2 \<and> earliest (timers (run random es1 w)) = Some t)"
  using assms(1,2)
proof (induction es arbitrary: w)
  case Nil
  then show ?case by simp
next
  case (Cons e es)
  from clearFlash_step[OF reachable_inv[OF Cons.prems(1)] Cons.prems(2) assms(3), of random e]
  show ?case
  proof
    assume "t \<in> set (timers (step random e w))"
    from Cons.IH[OF reachable.event[OF Cons.prems(1)] this]
    show ?thesis
    proof
      assume "t \<in> set (timers (run random es (step random e w)))"
      then show ?thesis by simp
    next
      assume "\<exists>es1 es2. es = es1 @ Fire # es2 \<and>
          earliest (timers (run random es1 (step random e w))) = Some t"
      then obtain es1 es2 where "es = es1 @ Fire # es2"
        "earliest (timers (run random es1 (step random e w))) = Some t" by blast
      then have "e # es = (e # es1) @ Fire # es2 \<and>
          earliest (timers (run random (e # es1) w)) = Some t" by simp
      then show ?thesis by blast
    qed
  next
    assume "e = Fire \<and> earliest (timers w) = Some t"
    then have "e # es = [] @ Fire # es \<and> earliest (timers (run random [] w)) = Some t" by simp
    then show ?thesis by blast
  qed
qed

lemma fire_clearFlash:
  assumes "timeOk v" "earliest (timers v) = Some t" "act t = ClearFlash"
  shows "now (step random Fire v) = due t" and "\<not> isThundering (st (step random Fire v))"
    and "flashes (step random Fire v) = flashes v"
proof -
  have "now v \<le> due t" using assms(1) earliest_mem[OF assms(2)] by (simp add: timeOk_def)
  then show "now (step random Fire v) = due t" using assms(2,3) by (simp add: step_def)
  have "\<not> isThundering (pend (handle random Fire v))" using assms(2,3) by simp
  then show "\<not> isThundering (st (step random Fire v))"
    unfolding step_def using settle_isThundering by blast
  show "flashes (step random Fire v) = flashes v" using assms(2,3) by (simp add: step_def)
qed

text \<open>
  Claim C8: with the manual trigger enabled, invoking it sets \<open>isThundering\<close> at once, whatever
  the automatic loop is doing (its pending timer is left alone), and schedules the reset
  1000 ms later: that timer stays pending through every later event until it is the one that
  fires, and when it fires, at 1000 ms after the trigger, \<open>isThundering\<close> is false again. When
  the sound is on, the thunder element is rewound and played at volume 1.0 if the window is
  open and 0.5 otherwise; when muted it is left alone.
\<close>

theorem manual_thunder:
  assumes "\<forall>k. is_draw (random k)" "reachable random w" "enableManualThunder (st w)"
  shows "let w' = step random ClickTriggerThunder w;
             t = \<lparr> tid = nextTimer w, due = now w + 1000, act = ClearFlash \<rparr>
         in isThundering (st w') \<and> t \<in> set (timers w') \<and> autoTimers w' = autoTimers w \<and>
            (isMuted (st w) \<longrightarrow> thunderAudioRef w' = thunderAudioRef w) \<and>
            (\<not> isMuted (st w) \<longrightarrow>
               (\<exists>a0 a. thunderAudioRef w = Some a0 \<and> thunderAudioRef w' = Some a \<and>
                  el_volume a = (if windowOpen (st w) then 1 else 1/2) \<and>
                  currentTime a = 0 \<and> calls a = calls a0 @ [Play])) \<and>
            (\<forall>es. t \<in> set (timers (run random es w')) \<or>
               (\<exists>es1 es2. es = es1 @ Fire # es2 \<and>
                  earliest (timers (run random es1 w')) = Some t)) \<and>
            (\<forall>v. reachable random v \<longrightarrow> earliest (timers v) = Some t \<longrightarrow>
               now (step random Fire v) = now w + 1000 \<and>
               \<not> isThundering (st (step random Fire v)))"
proof -
  note i = reachable_inv[OF assms(2)]
  define x where "x = handle random ClickTriggerThunder w"
  define t where "t = \<lparr> tid = nextTimer w, due = now w + 1000, act = ClearFlash \<rparr>"
  have s: "pend w = st w" "volumeDeps w = Some (windowOpen (st w))"
    "thunderDeps w = Some (thunderKey (st w))"
    using i by (simp_all add: inv_def settled_def volumeKey_def)
  have x: "x = triggerThunder (isMuted (st w)) (windowOpen (st w)) w"
    using assms(3) by (simp add: x_def triggerManualThunder_eq)
  have clean: "volumeDeps x = Some (windowOpen (pend x))" "thunderDeps x = Some (thunderKey (pend x))"
    using s by (simp_all add: x triggerThunder_eq thunderKey_def)
  have w': "step random ClickTriggerThunder w = commit random x"
    unfolding step_def x_def[symmetric] by (rule settle_clean[OF clean])
  have tm: "timers (commit random x) = timers w @ [t]"
    using clean(2) by (simp add: commit_timers) (simp add: x triggerThunder_eq t_def)
  have 1: "isThundering (st (commit random x))" by (simp add: x triggerThunder_eq)
  have 2: "t \<in> set (timers (commit random x))" by (simp add: tm)
  have 3: "autoTimers (commit random x) = autoTimers w" by (simp add: autoTimers_def tm t_def)
  have 4: "isMuted (st w) \<Longrightarrow> thunderAudioRef (commit random x) = thunderAudioRef w"
    by (simp add: x triggerThunder_eq)
  obtain a0 where a0: "thunderAudioRef w = Some a0" using i by (auto simp: inv_def refsOk_def)
  have 5: "\<exists>a0 a. thunderAudioRef w = Some a0 \<and> thunderAudioRef (commit random x) = Some a \<and>
       el_volume a = (if windowOpen (st w) then 1 else 1/2) \<and>
       currentTime a = 0 \<and> calls a = calls a0 @ [Play]" if "\<not> isMuted (st w)"
    using that a0 by (simp add: x triggerThunder_eq play_def)
  have r': "reachable random (commit random x)"
    using reachable.event[OF assms(2), of ClickTriggerThunder] by (simp add: w')
  have 6: "t \<in> set (timers (run random es (commit random x))) \<or>
       (\<exists>es1 es2. es = es1 @ Fire # es2 \<and>
          earliest (timers (run random es1 (commit random x))) = Some t)" for es
    by (rule clearFlash_run[OF r' 2]) (simp add: t_def)
  have 7: "now (step random Fire v) = now w + 1000 \<and> \<not> isThundering (st (step random Fire v))"
    if "reachable random v" "earliest (timers v) = Some t" for v
    using fire_clearFlash(1,2)[OF reachable_timeOk[OF assms(1) that(1)] that(2), of random]
    by (simp add: t_def)
  show ?thesis
    unfolding Let_def w' t_def[symmetric]
    using 1 2 3 4 5 6 7 by blast
qed

definition stormWorld :: world where
  "stormWorld = run halfDraws [ClickIntensity Heavy, SwitchThunder True] (mounted halfDraws False)"

lemma halfDraws_draw: "\<forall>k. is_draw (halfDraws k)"
  by (simp add: halfDraws_def draw_half)

lemma stormWorld_reachable: "reachable halfDraws stormWorld"
  unfolding stormWorld_def by (intro reachable_run reachable.mount)

theorem manual_thunder_witness:
  "(\<forall>k. is_draw (halfDraws k)) \<and> reachable halfDraws stormWorld \<and>
   enableManualThunder (st stormWorld) \<and> weatherIntensity (st stormWorld) = Heavy \<and>
   isThundering (st (step halfDraws ClickTriggerThunder stormWorld)) \<and>
   \<lparr> tid = 2, due = 1000, act = ClearFlash \<rparr> \<in> set (timers (step halfDraws ClickTriggerThunder stormWorld)) \<and>
   autoTimers (step halfDraws ClickTriggerThunder stormWorld) = autoTimers stormWorld"
proof -
  have e: "enableManualThunder (st stormWorld)" "weatherIntensity (st stormWorld) = Heavy"
    "nextTimer stormWorld = 2" "now stormWorld = 0"
    by code_simp+
  from manual_thunder[OF halfDraws_draw stormWorld_reachable e(1)]
  have "isThundering (st (step halfDraws ClickTriggerThunder stormWorld)) \<and>
    \<lparr> tid = nextTimer stormWorld, due = now stormWorld + 1000, act = ClearFlash \<rparr>
      \<in> set (timers (step halfDraws ClickTriggerThunder stormWorld)) \<and>
    autoTimers (step halfDraws ClickTriggerThunder stormWorld) = autoTimers stormWorld"
    unfolding Let_def by blast
  then show ?thesis using halfDraws_draw stormWorld_reachable e by simp
qed

text \<open>
  Flashes may overlap: the reset of an earlier flash also ends a later one. Here the loop
  flashes at 10000 ms, the manual trigger at 10500 ms, and the reset of the first flash clears
  \<open>isThundering\<close> at 11000 ms; the reset of the manual flash follows at 11500 ms.
\<close>

lemma overlapping_flashes_example:
  "isThundering (st (run halfDraws [Fire, Elapse 500, ClickTriggerThunder] stormWorld)) \<and>
   now (run halfDraws [Fire, Elapse 500, ClickTriggerThunder] stormWorld) = 10500 \<and>
   \<not> isThundering (st (run halfDraws [Fire, Elapse 500, ClickTriggerThunder, Fire] stormWorld)) \<and>
   now (run halfDraws [Fire, Elapse 500, ClickTriggerThunder, Fire] stormWorld) = 11000 \<and>
   map due (timers (run halfDraws [Fire, Elapse 500, ClickTriggerThunder, Fire] stormWorld))
     = [20000, 11500]"
  by code_simp

subsection \<open>While the intensity is not heavy\<close>

lemma handle_intensity:
  "weatherIntensity (pend (handle random e w)) =
     (case e of ClickIntensity i \<Rightarrow> i | _ \<Rightarrow> weatherIntensity (pend w))"
proof (cases e)
  case Fire
  have "weatherIntensity (pend (runCallback random c v)) = weatherIntensity (pend v)" for c v
    by (cases c) (simp_all add: runCallback_auto_eq)
  then show ?thesis using Fire by (simp split: option.split)
qed (simp_all add: handler_eqs)

lemma quiet_step_intensity:
  assumes "inv w" "weatherIntensity (st w) \<noteq> Heavy" "e \<noteq> ClickIntensity Heavy"
  shows "weatherIntensity (st (step random e w)) \<noteq> Heavy"
proof -
  have "pend w = st w" using assms(1) by (simp add: inv_def settled_def)
  then have "weatherIntensity (st (step random e w)) =
      (case e of ClickIntensity i \<Rightarrow> i | _ \<Rightarrow> weatherIntensity (st w))"
    by (simp add: step_def handle_intensity del: handle.simps split: event.split)
  then show ?thesis using assms(2,3) by (cases e) simp_all
qed

lemma quiet_fire:
  assumes "inv w" "weatherIntensity (st w) \<noteq> Heavy" "earliest (timers w) = Some t"
  shows "act t = ClearFlash"
proof (rule ccontr)
  assume "act t \<noteq> ClearFlash"
  then have "t \<in> set (autoTimers w)"
    using earliest_mem[OF assms(3)] by (simp add: autoTimers_def)
  then show False using inv_quiet(1)[OF assms(1,2)] by simp
qed

lemma quiet_step_flash:
  assumes "inv w" "weatherIntensity (st w) \<noteq> Heavy" "e \<noteq> ClickTriggerThunder"
  shows "flashes (step random e w) = flashes w"
    and "\<not> isThundering (st w) \<Longrightarrow> \<not> isThundering (st (step random e w))"
proof -
  have s: "pend w = st w" using assms(1) by (simp add: inv_def settled_def)
  have "flashes (handle random e w) = flashes w \<and>
        (\<not> isThundering (st w) \<longrightarrow> \<not> isThundering (pend (handle random e w)))"
  proof (cases e)
    case Fire
    show ?thesis
    proof (cases "earliest (timers w)")
      case None
      then show ?thesis using Fire s by simp
    next
      case (Some t)
      then show ?thesis using Fire quiet_fire[OF assms(1,2) Some] by simp
    qed
  qed (use assms(3) s in \<open>simp_all add: handler_eqs\<close>)
  then show "flashes (step random e w) = flashes w"
    and "\<not> isThundering (st w) \<Longrightarrow> \<not> isThundering (st (step random e w))"
    unfolding step_def using settle_isThundering by auto
qed

lemma quiet_run:
  assumes "reachable random w" "weatherIntensity (st w) \<noteq> Heavy" "ClickIntensity Heavy \<notin> set es"
  shows "weatherIntensity (st (run random es w)) \<noteq> Heavy \<and> autoTimers (run random es w) = [] \<and>
         (ClickTriggerThunder \<notin> set es \<longrightarrow>
            flashes (run random es w) = flashes w \<and>
            (\<not> isThundering (st w) \<longrightarrow> \<not> isThundering (st (run random es w))))"
  using assms
proof (induction es arbitrary: w)
  case Nil
  then show ?case using inv_quiet(1)[OF reachable_inv] by simp
next
  case (Cons e es)
  note i = reachable_inv[OF Cons.prems(1)]
  have e: "e \<noteq> ClickIntensity Heavy" and es: "ClickIntensity Heavy \<notin> set es"
    using Cons.prems(3) by auto
  have q: "weatherIntensity (st (step random e w)) \<noteq> Heavy"
    by (rule quiet_step_intensity[OF i Cons.prems(2) e])
  note ih = Cons.IH[OF reachable.event[OF Cons.prems(1)] q es]
  show ?case
    using ih quiet_step_flash[OF i Cons.prems(2), of e random] by auto
qed

text \<open>
  The manual trigger is a feature of its own and does not depend on the intensity: with the
  intensity back at \<open>light\<close> and the trigger enabled, invoking it produces a flash.
\<close>

lemma manual_flash_at_light_example:
  "weatherIntensity (st (run halfDraws [ClickIntensity Heavy] (mounted halfDraws False))) = Heavy \<and>
   weatherIntensity (st (run halfDraws
      [ClickIntensity Heavy, Elapse 2000, ClickIntensity Light, Elapse 3000, SwitchThunder True,
       ClickTriggerThunder] (mounted halfDraws False))) = Light \<and>
   isThundering (st (run halfDraws
      [ClickIntensity Heavy, Elapse 2000, ClickIntensity Light, Elapse 3000, SwitchThunder True,
       ClickTriggerThunder] (mounted halfDraws False))) \<and>
   flashes (run halfDraws
      [ClickIntensity Heavy, Elapse 2000, ClickIntensity Light, Elapse 3000, SwitchThunder True,
       ClickTriggerThunder] (mounted halfDraws False)) = [5000]"
  by code_simp

text \<open>
  Claim C1: whenever the intensity goes from \<open>heavy\<close> to another value, the pending thunder
  timer is cleared and \<open>isThundering\<close> is set to false, so no thunder flash fires afterward
  unless the intensity enters \<open>heavy\<close> again: as long as it does not, no timer of the loop is
  pending, and (the manual trigger, a feature of its own, left aside) the list of flashes stays
  as it is and \<open>isThundering\<close> stays false.
\<close>

theorem leaving_heavy_stops_loop:
  assumes "reachable random w" "weatherIntensity (st w) = Heavy" "i \<noteq> Heavy"
  shows "let w' = step random (ClickIntensity i) w
         in autoTimers w \<noteq> [] \<and> (\<forall>t \<in> set (autoTimers w). t \<notin> set (timers w')) \<and>
            autoTimers w' = [] \<and> \<not> isThundering (st w') \<and>
            (\<forall>es. ClickIntensity Heavy \<notin> set es \<longrightarrow>
               autoTimers (run random es w') = [] \<and>
               (ClickTriggerThunder \<notin> set es \<longrightarrow>
                  flashes (run random es w') = flashes w' \<and>
                  \<not> isThundering (st (run random es w'))))"
proof -
  note iw = reachable_inv[OF assms(1)]
  define x where "x = handle random (ClickIntensity i) w"
  define w' where "w' = step random (ClickIntensity i) w"
  have r': "reachable random w'" unfolding w'_def by (rule reachable.event[OF assms(1)])
  have q: "weatherIntensity (st w') = i" by (simp add: w'_def step_def handleIntensityChange_eq)
  obtain ref d where c: "thunderCleanup w = Some ref"
    and a: "autoTimers w = [\<lparr> tid = timerRefs w ref, due = d,
              act = AutoThunder (isMuted (st w)) (windowOpen (st w)) ref \<rparr>]"
    using inv_heavy[OF iw assms(2)] by blast
  have dirty: "thunderDeps x \<noteq> Some (thunderKey (pend x))"
    using iw assms(2,3) by (auto simp: x_def inv_def settled_def thunderKey_def handleIntensityChange_eq)
  have nh: "weatherIntensity (pend x) \<noteq> Heavy" using assms(3) by (simp add: x_def handleIntensityChange_eq)
  have "timers w' = clearedTimers x"
    unfolding w'_def step_def x_def[symmetric] using dirty nh by (simp add: settle_thunder commit_timers)
  also have "\<dots> = filter (\<lambda>t. tid t \<noteq> timerRefs w ref) (timers w)"
    using dirty c by (simp add: clearedTimers_def) (simp add: x_def handleIntensityChange_eq)
  finally have tm: "timers w' = filter (\<lambda>t. tid t \<noteq> timerRefs w ref) (timers w)" .
  have 1: "autoTimers w \<noteq> []" using a by simp
  have 2: "\<forall>t \<in> set (autoTimers w). t \<notin> set (timers w')" using a by (simp add: tm)
  have 3: "autoTimers w' = []" using inv_quiet(1)[OF reachable_inv[OF r']] q assms(3) by simp
  have "\<not> isThundering (pend (commit random x))" using dirty nh by (simp add: commit_pend)
  then have 4: "\<not> isThundering (st w')"
    unfolding w'_def step_def x_def[symmetric] by (auto simp: settle_twice Let_def)
  have 5: "autoTimers (run random es w') = [] \<and>
      (ClickTriggerThunder \<notin> set es \<longrightarrow>
         flashes (run random es w') = flashes w' \<and> \<not> isThundering (st (run random es w')))"
    if "ClickIntensity Heavy \<notin> set es" for es
    using quiet_run[OF r' _ that] q assms(3) 4 by simp
  show ?thesis unfolding Let_def w'_def[symmetric] using 1 2 3 4 5 by blast
qed

theorem leaving_heavy_stops_loop_witness:
  "reachable halfDraws stormWorld \<and> weatherIntensity (st stormWorld) = Heavy \<and> Light \<noteq> Heavy \<and>
   autoTimers stormWorld \<noteq> [] \<and>
   autoTimers (step halfDraws (ClickIntensity Light) stormWorld) = [] \<and>
   \<not> isThundering (st (step halfDraws (ClickIntensity Light) stormWorld)) \<and>
   autoTimers (run halfDraws [Elapse 20000, SwitchSound False, Fire]
     (step halfDraws (ClickIntensity Light) stormWorld)) = []"
proof -
  have h: "weatherIntensity (st stormWorld) = Heavy" by code_simp
  have n: "ClickIntensity Heavy \<notin> set [Elapse 20000, SwitchSound False, Fire]" by simp
  have l: "Light \<noteq> Heavy" by simp
  from leaving_heavy_stops_loop[OF stormWorld_reachable h l] n
  have "autoTimers stormWorld \<noteq> [] \<and>
    autoTimers (step halfDraws (ClickIntensity Light) stormWorld) = [] \<and>
    \<not> isThundering (st (step halfDraws (ClickIntensity Light) stormWorld)) \<and>
    autoTimers (run halfDraws [Elapse 20000, SwitchSound False, Fire]
      (step halfDraws (ClickIntensity Light) stormWorld)) = []"
    unfolding Let_def by blast
  then show ?thesis using stormWorld_reachable h by simp
qed

subsection \<open>Timer identifiers are never used twice\<close>

lemma handle_fresh:
  assumes "k < nextTimer w" "k \<notin> tid ` set (timers w)"
  shows "k < nextTimer (handle random e w) \<and> k \<notin> tid ` set (timers (handle random e w))"
proof (cases e)
  case Fire
  show ?thesis
  proof (cases "earliest (timers w)")
    case None
    then show ?thesis using Fire assms by simp
  next
    case (Some t)
    have "k < nextTimer (runCallback random c (w\<lparr> timers := filter P (timers w), now := n \<rparr>)) \<and>
        k \<notin> tid ` set (timers (runCallback random c (w\<lparr> timers := filter P (timers w), now := n \<rparr>)))"
      for c P n
      using assms by (cases c) (auto simp: runCallback_auto_eq)
    then show ?thesis using Fire Some by simp
  qed
qed (use assms in \<open>auto simp: handler_eqs\<close>)

lemma commit_fresh:
  assumes "k < nextTimer w" "k \<notin> tid ` set (timers w)"
  shows "k < nextTimer (commit random w) \<and> k \<notin> tid ` set (timers (commit random w))"
  using assms clearedTimers_subset[of w] by (auto simp: commit_timers commit_counters)

lemma step_fresh:
  assumes "k < nextTimer w" "k \<notin> tid ` set (timers w)"
  shows "k < nextTimer (step random e w) \<and> k \<notin> tid ` set (timers (step random e w))"
proof -
  have "k < nextTimer (handle random e w) \<and> k \<notin> tid ` set (timers (handle random e w))"
    by (rule handle_fresh[OF assms])
  then show ?thesis
    unfolding step_def settle_thunder using commit_fresh by blast
qed

lemma run_fresh:
  assumes "k < nextTimer w" "k \<notin> tid ` set (timers w)"
  shows "k \<notin> tid ` set (timers (run random es w))"
  using assms
proof (induction es arbitrary: w)
  case Nil
  then show ?case by simp
next
  case (Cons e es)
  from step_fresh[OF Cons.prems, of random e] show ?case by (simp add: Cons.IH)
qed

text \<open>
  Claim C10: toggling \<open>isMuted\<close> or \<open>windowOpen\<close> while the intensity is \<open>heavy\<close> cancels the
  pending thunder timer and starts a new one, with a delay computed from a fresh draw and a
  callback that sees the new values; the timer that was pending before the toggle is never
  pending again, so it never fires.
\<close>

theorem toggle_restarts_thunder_timer:
  assumes "reachable random w" "weatherIntensity (st w) = Heavy"
    and "e = SwitchSound c \<and> (\<not> c) \<noteq> isMuted (st w) \<or> e = SwitchWindow c \<and> c \<noteq> windowOpen (st w)"
  shows "let w' = step random e w
         in \<exists>old ref. autoTimers w = [old] \<and> old \<notin> set (timers w') \<and>
              autoTimers w' =
                [\<lparr> tid = nextTimer w, due = now w + thunderDelay (random (draws w)),
                   act = AutoThunder (isMuted (st w')) (windowOpen (st w')) ref \<rparr>] \<and>
              (\<forall>es. tid old \<notin> tid ` set (timers (run random es w')))"
proof -
  note iw = reachable_inv[OF assms(1)]
  define x where "x = handle random e w"
  define w' where "w' = step random e w"
  obtain ref d where c: "thunderCleanup w = Some ref"
    and a: "autoTimers w = [\<lparr> tid = timerRefs w ref, due = d,
              act = AutoThunder (isMuted (st w)) (windowOpen (st w)) ref \<rparr>]"
    using inv_heavy[OF iw assms(2)] by blast
  define old where "old = \<lparr> tid = timerRefs w ref, due = d,
              act = AutoThunder (isMuted (st w)) (windowOpen (st w)) ref \<rparr>"
  have s: "pend w = st w" "thunderDeps w = Some (thunderKey (st w))" "timersOk w"
    using iw by (simp_all add: inv_def settled_def)
  have xw: "timers x = timers w" "nextTimer x = nextTimer w" "now x = now w" "draws x = draws w"
    "thunderCleanup x = thunderCleanup w" "timerRefs x = timerRefs w" "nextRef x = nextRef w"
    "thunderDeps x = thunderDeps w"
    using assms(3) by (auto simp: x_def)
  from assms(3) consider
      (sound) "e = SwitchSound c" "(\<not> c) \<noteq> isMuted (st w)"
    | (window) "e = SwitchWindow c" "c \<noteq> windowOpen (st w)"
    by blast
  then have changed: "isMuted (pend x) \<noteq> isMuted (st w) \<or> windowOpen (pend x) \<noteq> windowOpen (st w)"
  proof cases
    case sound
    have "isMuted (pend x) = (\<not> c)" by (simp add: x_def sound(1))
    with sound(2) show ?thesis by simp
  next
    case window
    have "windowOpen (pend x) = c" by (simp add: x_def window(1))
    with window(2) show ?thesis by simp
  qed
  have dirty: "thunderDeps x \<noteq> Some (thunderKey (pend x))"
  proof
    assume "thunderDeps x = Some (thunderKey (pend x))"
    then have "thunderKey (st w) = thunderKey (pend x)" using s(2) by (simp add: xw)
    then have "isMuted (st w) = isMuted (pend x)" "windowOpen (st w) = windowOpen (pend x)"
      by (simp_all add: thunderKey_def)
    with changed show False by simp
  qed
  have hv: "weatherIntensity (pend x) = Heavy" using assms(2,3) s(1) by (auto simp: x_def)
  have keys: "isMuted (st w') = isMuted (pend x)" "windowOpen (st w') = windowOpen (pend x)"
    by (simp_all add: w'_def step_def x_def)
  have cl: "clearedTimers x = filter (\<lambda>t. tid t \<noteq> tid old) (timers w)"
    using dirty c by (simp add: clearedTimers_def xw old_def)
  have tm: "timers w' = filter (\<lambda>t. tid t \<noteq> tid old) (timers w) @
      [\<lparr> tid = nextTimer w, due = now w + thunderDelay (random (draws w)),
         act = AutoThunder (isMuted (st w')) (windowOpen (st w')) (nextRef w) \<rparr>]"
    unfolding w'_def[unfolded step_def, folded x_def] settle_thunder
    using dirty hv by (simp add: commit_timers cl xw keys[unfolded w'_def step_def, folded x_def])
  have "old \<in> set (autoTimers w)" using a by (simp add: old_def)
  then have oldin: "old \<in> set (timers w)" by (simp add: autoTimers_def)
  have lt: "tid old < nextTimer w" using s(3) oldin by (simp add: timersOk_def)
  have 1: "autoTimers w = [old]" using a by (simp add: old_def)
  have 2: "old \<notin> set (timers w')" using lt by (auto simp: tm)
  have "filter (\<lambda>t. act t \<noteq> ClearFlash) (filter (\<lambda>t. tid t \<noteq> tid old) (timers w))
      = filter (\<lambda>t. tid t \<noteq> tid old) (autoTimers w)"
    by (simp add: autoTimers_def conj_commute)
  then have 3: "autoTimers w' =
      [\<lparr> tid = nextTimer w, due = now w + thunderDelay (random (draws w)),
         act = AutoThunder (isMuted (st w')) (windowOpen (st w')) (nextRef w) \<rparr>]"
    unfolding autoTimers_def[of w'] tm using 1 by simp
  have n': "nextTimer w' = Suc (nextTimer w)"
    unfolding w'_def[unfolded step_def, folded x_def] settle_thunder
    using dirty hv by (simp add: commit_counters xw)
  have "tid old \<notin> tid ` set (timers w')" using lt by (auto simp: tm)
  then have 4: "tid old \<notin> tid ` set (timers (run random es w'))" for es
    using run_fresh[of "tid old" w' random es] lt n' by simp
  show ?thesis
    unfolding Let_def w'_def[symmetric]
    by (intro exI[of _ old] exI[of _ "nextRef w"] conjI allI 1 2 3 4)
qed

theorem toggle_restarts_thunder_timer_witness:
  "reachable halfDraws stormWorld \<and> weatherIntensity (st stormWorld) = Heavy \<and>
   (\<not> False) \<noteq> isMuted (st stormWorld) \<and>
   autoTimers stormWorld = [\<lparr> tid = 1, due = 10000, act = AutoThunder False False 0 \<rparr>] \<and>
   autoTimers (step halfDraws (SwitchSound False) stormWorld)
     = [\<lparr> tid = 2, due = 10000, act = AutoThunder True False 1 \<rparr>] \<and>
   1 \<notin> tid ` set (timers (run halfDraws [Fire, Fire, SwitchWindow True, Fire]
           (step halfDraws (SwitchSound False) stormWorld)))"
proof -
  have h: "weatherIntensity (st stormWorld) = Heavy" "(\<not> False) \<noteq> isMuted (st stormWorld)"
    by code_simp+
  have a: "autoTimers stormWorld = [\<lparr> tid = 1, due = 10000, act = AutoThunder False False 0 \<rparr>]"
    "autoTimers (step halfDraws (SwitchSound False) stormWorld)
       = [\<lparr> tid = 2, due = 10000, act = AutoThunder True False 1 \<rparr>]"
    by code_simp+
  from toggle_restarts_thunder_timer[OF stormWorld_reachable h(1), of "SwitchSound False" False]
    h(2)
  obtain old where o: "autoTimers stormWorld = [old]"
    and n: "\<forall>es. tid old \<notin> tid ` set (timers (run halfDraws es (step halfDraws (SwitchSound False) stormWorld)))"
    unfolding Let_def by blast
  have "old = \<lparr> tid = 1, due = 10000, act = AutoThunder False False 0 \<rparr>"
    using o a(1) by simp
  then have "tid old = 1" by simp
  with n have 1: "1 \<notin> tid ` set (timers (run halfDraws [Fire, Fire, SwitchWindow True, Fire]
           (step halfDraws (SwitchSound False) stormWorld)))"
    by metis
  show ?thesis by (intro conjI stormWorld_reachable h a 1)
qed

subsection \<open>The timer of the loop stays pending until it fires\<close>

lemma run_append: "run random (es @ fs) w = run random fs (run random es w)"
  by (induction es arbitrary: w) simp_all

lemma step_thunderKey:
  "thunderKey (st (step random e w)) = thunderKey (pend (handle random e w))"
  by (simp add: step_def thunderKey_def del: handle.simps)

lemma loop_timer_step:
  assumes "inv v" "autoTimers v = [n]"
    "thunderKey (st (step random e v)) = thunderKey (st v)"
  shows "(e = Fire \<and> earliest (timers v) = Some n) \<or>
         (autoTimers (step random e v) = [n] \<and>
          (e \<noteq> ClickTriggerThunder \<longrightarrow> flashes (step random e v) = flashes v))"
proof -
  define x where "x = handle random e v"
  have s: "thunderDeps v = Some (thunderKey (st v))" "timersOk v"
    using assms(1) by (simp_all add: inv_def settled_def)
  have clean: "thunderDeps x = Some (thunderKey (pend x))"
    using assms(3) s(1) by (simp add: step_thunderKey x_def del: handle.simps)
  have tm: "timers (step random e v) = timers x"
    unfolding step_def x_def[symmetric]
    by (simp add: settle_thunder commit_clean_thunder[OF clean])
  have fl: "flashes (step random e v) = flashes x"
    by (simp add: step_def x_def del: handle.simps)
  have au: "autoTimers (step random e v) = autoTimers x"
    by (simp add: autoTimers_def tm)
  have "(e = Fire \<and> earliest (timers v) = Some n) \<or>
        (autoTimers x = [n] \<and> (e \<noteq> ClickTriggerThunder \<longrightarrow> flashes x = flashes v))"
  proof (cases e)
    case Fire
    show ?thesis
    proof (cases "earliest (timers v)")
      case None
      then show ?thesis using Fire assms(2) by (simp add: x_def)
    next
      case (Some t)
      have tin: "t \<in> set (timers v)" using Some by (rule earliest_mem)
      show ?thesis
      proof (cases "act t = ClearFlash")
        case True
        have d: "distinct (map tid (timers v))" using s(2) by (simp add: timersOk_def)
        have "autoTimers x = autoTimers v"
          using Fire Some True autoTimers_remove_other[OF d tin True]
          by (simp add: x_def autoTimers_def)
        moreover have "flashes x = flashes v" using Fire Some True by (simp add: x_def)
        ultimately show ?thesis using assms(2) by simp
      next
        case False
        then have "t \<in> set (autoTimers v)" using tin by (simp add: autoTimers_def)
        then have "t = n" using assms(2) by simp
        then show ?thesis using Fire Some by simp
      qed
    qed
  qed (use assms(2) in \<open>simp_all add: x_def handler_eqs autoTimers_def\<close>)
  then show ?thesis by (simp add: au fl)
qed

lemma fire_loop_timer:
  assumes "\<forall>k. is_draw (random k)" "reachable random w"
    "earliest (timers w) = Some t" "act t \<noteq> ClearFlash"
  shows "weatherIntensity (st w) = Heavy"
    and "flashes (step random Fire w) = flashes w @ [due t]"
    and "autoTimers (step random Fire w) =
           [\<lparr> tid = Suc (nextTimer w), due = due t + thunderDelay (random (draws w)),
              act = act t \<rparr>]"
    and "thunderKey (st (step random Fire w)) = thunderKey (st w)"
proof -
  note iw = reachable_inv[OF assms(2)]
  have s: "pend w = st w" "thunderDeps w = Some (thunderKey (st w))"
    "volumeDeps w = Some (windowOpen (st w))" "timersOk w"
    using iw by (simp_all add: inv_def settled_def volumeKey_def)
  have tin: "t \<in> set (timers w)" using assms(3) by (rule earliest_mem)
  then have ta: "t \<in> set (autoTimers w)" using assms(4) by (simp add: autoTimers_def)
  show hv: "weatherIntensity (st w) = Heavy"
  proof (rule ccontr)
    assume "weatherIntensity (st w) \<noteq> Heavy"
    then have "autoTimers w = []" by (rule inv_quiet(1)[OF iw])
    with ta show False by simp
  qed
  obtain ref d where a: "autoTimers w = [\<lparr> tid = timerRefs w ref, due = d,
            act = AutoThunder (isMuted (st w)) (windowOpen (st w)) ref \<rparr>]"
    using inv_heavy[OF iw hv] by blast
  from ta a have at: "act t = AutoThunder (isMuted (st w)) (windowOpen (st w)) ref" by auto
  have "now w \<le> due t"
    using reachable_timeOk[OF assms(1,2)] tin by (simp add: timeOk_def)
  then have mx: "max (now w) (due t) = due t" by simp
  define w1 where "w1 = w\<lparr> timers := filter (\<lambda>u. tid u \<noteq> tid t) (timers w), now := due t \<rparr>"
  define x where "x = handle random Fire w"
  have x: "x = runCallback random (AutoThunder (isMuted (st w)) (windowOpen (st w)) ref) w1"
    using assms(3) at by (simp add: x_def w1_def mx)
  have "filter (\<lambda>u. act u \<noteq> ClearFlash) (filter (\<lambda>u. tid u \<noteq> tid t) (timers w))
      = filter (\<lambda>u. tid u \<noteq> tid t) (autoTimers w)"
    by (simp add: autoTimers_def conj_commute)
  also have "\<dots> = []" using ta a by auto
  finally have e1: "autoTimers w1 = []" by (simp add: autoTimers_def w1_def)
  have clean: "volumeDeps x = Some (windowOpen (pend x))"
    "thunderDeps x = Some (thunderKey (pend x))"
    using s by (simp_all add: x runCallback_auto_eq w1_def thunderKey_def)
  have st: "step random Fire w = commit random x"
    unfolding step_def x_def[symmetric] by (rule settle_clean[OF clean])
  have tm: "timers (commit random x) = timers x" using clean(2) by (simp add: commit_timers)
  have "autoTimers (commit random x) = autoTimers w1 @
      [\<lparr> tid = Suc (nextTimer w), due = due t + thunderDelay (random (draws w)),
         act = AutoThunder (isMuted (st w)) (windowOpen (st w)) ref \<rparr>]"
    unfolding autoTimers_def tm by (simp add: x runCallback_auto_eq) (simp add: w1_def)
  then show "autoTimers (step random Fire w) =
           [\<lparr> tid = Suc (nextTimer w), due = due t + thunderDelay (random (draws w)),
              act = act t \<rparr>]"
    using e1 by (simp add: st at)
  show "flashes (step random Fire w) = flashes w @ [due t]"
    by (simp add: st) (simp add: x runCallback_auto_eq w1_def)
  have "thunderKey (pend x) = thunderKey (st w)"
    using s(1) by (simp add: x runCallback_auto_eq w1_def thunderKey_def)
  then show "thunderKey (st (step random Fire w)) = thunderKey (st w)"
    by (simp add: step_thunderKey x_def del: handle.simps)
qed

lemma loop_timer_run:
  assumes d: "\<forall>k. is_draw (random k)"
  shows "reachable random w \<Longrightarrow> autoTimers w = [n] \<Longrightarrow>
     (\<forall>p. prefix p es \<longrightarrow> thunderKey (st (run random p w)) = thunderKey (st w)) \<Longrightarrow>
     ((\<forall>p. prefix p es \<longrightarrow> autoTimers (run random p w) = [n]) \<and>
      (ClickTriggerThunder \<notin> set es \<longrightarrow> flashes (run random es w) = flashes w)) \<or>
     (\<exists>es1 es2. es = es1 @ Fire # es2 \<and>
        (\<forall>p. prefix p es1 \<longrightarrow> autoTimers (run random p w) = [n]) \<and>
        (ClickTriggerThunder \<notin> set es1 \<longrightarrow> flashes (run random es1 w) = flashes w) \<and>
        earliest (timers (run random es1 w)) = Some n \<and>
        flashes (run random (es1 @ [Fire]) w) = flashes (run random es1 w) @ [due n])"
proof (induction es arbitrary: w)
  case Nil
  then show ?case by simp
next
  case (Cons e es)
  note r = Cons.prems(1) and a = Cons.prems(2)
  have nc: "act n \<noteq> ClearFlash"
  proof -
    have "n \<in> set (autoTimers w)" using a by simp
    then show ?thesis by (simp add: autoTimers_def)
  qed
  show ?case
  proof (cases "e = Fire \<and> earliest (timers w) = Some n")
    case True
    have "flashes (step random Fire w) = flashes w @ [due n]"
      using True by (intro fire_loop_timer(2)[OF d r _ nc]) simp
    then have "e # es = [] @ Fire # es \<and>
        (\<forall>p. prefix p [] \<longrightarrow> autoTimers (run random p w) = [n]) \<and>
        (ClickTriggerThunder \<notin> set [] \<longrightarrow> flashes (run random [] w) = flashes w) \<and>
        earliest (timers (run random [] w)) = Some n \<and>
        flashes (run random ([] @ [Fire]) w) = flashes (run random [] w) @ [due n]"
      using True a by simp
    then show ?thesis by blast
  next
    case False
    have "prefix [e] (e # es)" by simp
    then have "thunderKey (st (run random [e] w)) = thunderKey (st w)"
      using Cons.prems(3) by blast
    then have k1: "thunderKey (st (step random e w)) = thunderKey (st w)" by simp
    from loop_timer_step[OF reachable_inv[OF r] a k1] False
    have a': "autoTimers (step random e w) = [n]"
      and f': "e \<noteq> ClickTriggerThunder \<Longrightarrow> flashes (step random e w) = flashes w"
      by blast+
    have k': "thunderKey (st (run random p (step random e w))) = thunderKey (st (step random e w))"
      if "prefix p es" for p
    proof -
      have "prefix (e # p) (e # es)" using that by simp
      then have "thunderKey (st (run random (e # p) w)) = thunderKey (st w)"
        using Cons.prems(3) by blast
      then show ?thesis by (simp add: k1)
    qed
    have pre: "\<forall>p. prefix p (e # q) \<longrightarrow> autoTimers (run random p w) = [n]"
      if "\<forall>p. prefix p q \<longrightarrow> autoTimers (run random p (step random e w)) = [n]" for q
      using that a by (auto simp: prefix_Cons)
    have kall: "\<forall>p. prefix p es \<longrightarrow>
        thunderKey (st (run random p (step random e w))) = thunderKey (st (step random e w))"
      using k' by blast
    from Cons.IH[OF reachable.event[OF r] a' kall]
    show ?thesis
    proof (elim disjE exE conjE)
      assume 1: "\<forall>p. prefix p es \<longrightarrow> autoTimers (run random p (step random e w)) = [n]"
        and 2: "ClickTriggerThunder \<notin> set es \<longrightarrow>
                  flashes (run random es (step random e w)) = flashes (step random e w)"
      have "ClickTriggerThunder \<notin> set (e # es) \<longrightarrow> flashes (run random (e # es) w) = flashes w"
        using 2 f' by auto
      then show ?thesis using pre[OF 1] by blast
    next
      fix es1 es2
      assume 0: "es = es1 @ Fire # es2"
        and 1: "\<forall>p. prefix p es1 \<longrightarrow> autoTimers (run random p (step random e w)) = [n]"
        and 2: "ClickTriggerThunder \<notin> set es1 \<longrightarrow>
                  flashes (run random es1 (step random e w)) = flashes (step random e w)"
        and 3: "earliest (timers (run random es1 (step random e w))) = Some n"
        and 4: "flashes (run random (es1 @ [Fire]) (step random e w)) =
                  flashes (run random es1 (step random e w)) @ [due n]"
      have "ClickTriggerThunder \<notin> set (e # es1) \<longrightarrow> flashes (run random (e # es1) w) = flashes w"
        using 2 f' by auto
      then have "e # es = (e # es1) @ Fire # es2 \<and>
        (\<forall>p. prefix p (e # es1) \<longrightarrow> autoTimers (run random p w) = [n]) \<and>
        (ClickTriggerThunder \<notin> set (e # es1) \<longrightarrow> flashes (run random (e # es1) w) = flashes w) \<and>
        earliest (timers (run random (e # es1) w)) = Some n \<and>
        flashes (run random ((e # es1) @ [Fire]) w) = flashes (run random (e # es1) w) @ [due n]"
        using 0 pre[OF 1] 3 4 by simp
      then show ?thesis by blast
    qed
  qed
qed


text \<open>
  Counterexample to claim C4 as stated: with the intensity \<open>heavy\<close> throughout, the loop
  flashes at 10000 ms; the sound is switched off at 19000 ms, which restarts the timer, and the
  next flash comes at 29000 ms, 19000 ms after the one before.
\<close>

theorem thunder_gap_counterexample:
  "flashes (run halfDraws [ClickIntensity Heavy, Fire, Fire, Elapse 8000, SwitchSound False, Fire]
      (mounted halfDraws False)) = [10000, 29000] \<and>
   weatherIntensity (st (run halfDraws [ClickIntensity Heavy] (mounted halfDraws False))) = Heavy \<and>
   weatherIntensity (st (run halfDraws
      [ClickIntensity Heavy, Fire, Fire, Elapse 8000, SwitchSound False, Fire]
      (mounted halfDraws False))) = Heavy \<and>
   now (run halfDraws [ClickIntensity Heavy, Fire, Fire, Elapse 8000] (mounted halfDraws False))
     = 19000 \<and>
   \<not> (29000 - 10000 < (15000 :: rat))"
  by code_simp

text \<open>
  Claim C4, amended: every timer of the loop is set with the delay \<open>5000 + r * 10000\<close> for a draw
  \<open>r\<close>, which lies in \<open>[5000, 15000)\<close> for every draw in \<open>[0, 1)\<close>: on entering \<open>heavy\<close> the first
  flash is due that long after the click, and when a flash of the loop fires, at its due time,
  the next one is due that long after it. The pending timer of the loop survives every run of
  events over which intensity, sound and window stay as they are: either it is the one pending
  after every prefix of the run, or an event of the run is the timeout that fires it, at its
  due time, and up to then it is the one pending. So after a flash of the loop at \<open>due t\<close>, and
  as long as intensity, sound and window do not change, the next flash of the loop is the one
  at \<open>due t + thunderDelay r\<close>, between 5000 ms and 15000 ms later; with no manual trigger in
  between it is the next flash recorded. (Timers fire when due; how the draws are distributed
  is not part of the model.)
\<close>

theorem thunder_delay_and_gap:
  assumes "\<forall>k. is_draw (random k)" "reachable random w"
  shows "5000 \<le> thunderDelay (random (draws w)) \<and> thunderDelay (random (draws w)) < 15000 \<and>
         (weatherIntensity (st w) \<noteq> Heavy \<longrightarrow>
            (\<exists>m wo ref. autoTimers (step random (ClickIntensity Heavy) w) =
               [\<lparr> tid = nextTimer w, due = now w + thunderDelay (random (draws w)),
                  act = AutoThunder m wo ref \<rparr>])) \<and>
         (\<forall>t. earliest (timers w) = Some t \<and> act t \<noteq> ClearFlash \<longrightarrow>
            weatherIntensity (st w) = Heavy \<and>
            flashes (step random Fire w) = flashes w @ [due t] \<and>
            (\<exists>m wo ref. autoTimers (step random Fire w) =
               [\<lparr> tid = Suc (nextTimer w), due = due t + thunderDelay (random (draws w)),
                  act = AutoThunder m wo ref \<rparr>])) \<and>
         (\<forall>n es. autoTimers w = [n] \<and>
            (\<forall>p. prefix p es \<longrightarrow> thunderKey (st (run random p w)) = thunderKey (st w)) \<longrightarrow>
            ((\<forall>p. prefix p es \<longrightarrow> autoTimers (run random p w) = [n]) \<and>
             (ClickTriggerThunder \<notin> set es \<longrightarrow> flashes (run random es w) = flashes w)) \<or>
            (\<exists>es1 es2. es = es1 @ Fire # es2 \<and>
               (\<forall>p. prefix p es1 \<longrightarrow> autoTimers (run random p w) = [n]) \<and>
               (ClickTriggerThunder \<notin> set es1 \<longrightarrow> flashes (run random es1 w) = flashes w) \<and>
               earliest (timers (run random es1 w)) = Some n \<and>
               flashes (run random (es1 @ [Fire]) w) = flashes (run random es1 w) @ [due n])) \<and>
         (\<forall>t es. earliest (timers w) = Some t \<and> act t \<noteq> ClearFlash \<and>
            (\<forall>p. prefix p es \<longrightarrow>
               thunderKey (st (run random p (step random Fire w))) = thunderKey (st w)) \<longrightarrow>
            (\<exists>n. autoTimers (step random Fire w) = [n] \<and>
               due n = due t + thunderDelay (random (draws w)) \<and>
               ((\<forall>p. prefix p es \<longrightarrow> autoTimers (run random p (step random Fire w)) = [n]) \<and>
                (ClickTriggerThunder \<notin> set es \<longrightarrow>
                   flashes (run random es (step random Fire w)) = flashes w @ [due t]) \<or>
                (\<exists>es1 es2. es = es1 @ Fire # es2 \<and>
                   (\<forall>p. prefix p es1 \<longrightarrow> autoTimers (run random p (step random Fire w)) = [n]) \<and>
                   earliest (timers (run random es1 (step random Fire w))) = Some n \<and>
                   flashes (run random (es1 @ [Fire]) (step random Fire w)) =
                     flashes (run random es1 (step random Fire w)) @
                       [due t + thunderDelay (random (draws w))] \<and>
                   (ClickTriggerThunder \<notin> set es1 \<longrightarrow>
                      flashes (run random es1 (step random Fire w)) = flashes w @ [due t])))))"
proof -
  note iw = reachable_inv[OF assms(2)]
  have s: "pend w = st w" "thunderDeps w = Some (thunderKey (st w))"
    "volumeDeps w = Some (windowOpen (st w))" "timersOk w"
    using iw by (simp_all add: inv_def settled_def volumeKey_def)
  have p1: "5000 \<le> thunderDelay (random (draws w)) \<and> thunderDelay (random (draws w)) < 15000"
    using thunderDelay_range[of "random (draws w)"] assms(1) by simp
  have p2: "\<exists>m wo ref. autoTimers (step random (ClickIntensity Heavy) w) =
               [\<lparr> tid = nextTimer w, due = now w + thunderDelay (random (draws w)),
                  act = AutoThunder m wo ref \<rparr>]"
    if q: "weatherIntensity (st w) \<noteq> Heavy"
  proof -
    define x where "x = handle random (ClickIntensity Heavy) w"
    have xw: "timers x = timers w" "nextTimer x = nextTimer w" "now x = now w" "draws x = draws w"
      "thunderCleanup x = thunderCleanup w" "thunderDeps x = thunderDeps w"
      by (simp_all add: x_def handleIntensityChange_eq)
    have hv: "weatherIntensity (pend x) = Heavy" by (simp add: x_def handleIntensityChange_eq)
    have dirty: "thunderDeps x \<noteq> Some (thunderKey (pend x))"
      using q s(2) hv by (auto simp: xw thunderKey_def)
    have cl: "clearedTimers x = timers w"
      using inv_quiet(2)[OF iw q] by (simp add: clearedTimers_def xw)
    have "timers (step random (ClickIntensity Heavy) w) = timers w @
        [\<lparr> tid = nextTimer w, due = now w + thunderDelay (random (draws w)),
           act = AutoThunder (isMuted (pend x)) (windowOpen (pend x)) (nextRef x) \<rparr>]"
      unfolding step_def x_def[symmetric] settle_thunder
      using dirty hv by (simp add: commit_timers cl xw)
    then have "autoTimers (step random (ClickIntensity Heavy) w) = autoTimers w @
        [\<lparr> tid = nextTimer w, due = now w + thunderDelay (random (draws w)),
           act = AutoThunder (isMuted (pend x)) (windowOpen (pend x)) (nextRef x) \<rparr>]"
      by (simp add: autoTimers_def)
    then show ?thesis using inv_quiet(1)[OF iw q] by simp
  qed
  have p3: "weatherIntensity (st w) = Heavy \<and>
            flashes (step random Fire w) = flashes w @ [due t] \<and>
            (\<exists>m wo ref. autoTimers (step random Fire w) =
               [\<lparr> tid = Suc (nextTimer w), due = due t + thunderDelay (random (draws w)),
                  act = AutoThunder m wo ref \<rparr>])"
    if e: "earliest (timers w) = Some t" and nc: "act t \<noteq> ClearFlash" for t
  proof -
    obtain m wo ref where "act t = AutoThunder m wo ref" using nc by (cases "act t") simp_all
    then have "\<exists>m wo ref. autoTimers (step random Fire w) =
               [\<lparr> tid = Suc (nextTimer w), due = due t + thunderDelay (random (draws w)),
                  act = AutoThunder m wo ref \<rparr>]"
      using fire_loop_timer(3)[OF assms e nc] by simp
    then show ?thesis using fire_loop_timer(1,2)[OF assms e nc] by simp
  qed
  have p4: "((\<forall>p. prefix p es \<longrightarrow> autoTimers (run random p w) = [n]) \<and>
             (ClickTriggerThunder \<notin> set es \<longrightarrow> flashes (run random es w) = flashes w)) \<or>
            (\<exists>es1 es2. es = es1 @ Fire # es2 \<and>
               (\<forall>p. prefix p es1 \<longrightarrow> autoTimers (run random p w) = [n]) \<and>
               (ClickTriggerThunder \<notin> set es1 \<longrightarrow> flashes (run random es1 w) = flashes w) \<and>
               earliest (timers (run random es1 w)) = Some n \<and>
               flashes (run random (es1 @ [Fire]) w) = flashes (run random es1 w) @ [due n])"
    if "autoTimers w = [n]"
      "\<forall>p. prefix p es \<longrightarrow> thunderKey (st (run random p w)) = thunderKey (st w)" for n es
    by (rule loop_timer_run[OF assms that])
  have p5: "\<exists>n. autoTimers (step random Fire w) = [n] \<and>
               due n = due t + thunderDelay (random (draws w)) \<and>
               ((\<forall>p. prefix p es \<longrightarrow> autoTimers (run random p (step random Fire w)) = [n]) \<and>
                (ClickTriggerThunder \<notin> set es \<longrightarrow>
                   flashes (run random es (step random Fire w)) = flashes w @ [due t]) \<or>
                (\<exists>es1 es2. es = es1 @ Fire # es2 \<and>
                   (\<forall>p. prefix p es1 \<longrightarrow> autoTimers (run random p (step random Fire w)) = [n]) \<and>
                   earliest (timers (run random es1 (step random Fire w))) = Some n \<and>
                   flashes (run random (es1 @ [Fire]) (step random Fire w)) =
                     flashes (run random es1 (step random Fire w)) @
                       [due t + thunderDelay (random (draws w))] \<and>
                   (ClickTriggerThunder \<notin> set es1 \<longrightarrow>
                      flashes (run random es1 (step random Fire w)) = flashes w @ [due t])))"
    if e: "earliest (timers w) = Some t" and nc: "act t \<noteq> ClearFlash"
      and k: "\<forall>p. prefix p es \<longrightarrow>
               thunderKey (st (run random p (step random Fire w))) = thunderKey (st w)" for t es
  proof -
    define w' where "w' = step random Fire w"
    define n where "n = \<lparr> tid = Suc (nextTimer w), due = due t + thunderDelay (random (draws w)),
              act = act t \<rparr>"
    have r': "reachable random w'" unfolding w'_def by (rule reachable.event[OF assms(2)])
    have a': "autoTimers w' = [n]"
      unfolding w'_def n_def by (rule fire_loop_timer(3)[OF assms e nc])
    have f': "flashes w' = flashes w @ [due t]"
      unfolding w'_def by (rule fire_loop_timer(2)[OF assms e nc])
    have "thunderKey (st w') = thunderKey (st w)"
      unfolding w'_def by (rule fire_loop_timer(4)[OF assms e nc])
    then have k': "\<forall>p. prefix p es \<longrightarrow> thunderKey (st (run random p w')) = thunderKey (st w')"
      using k by (simp add: w'_def)
    have dn: "due n = due t + thunderDelay (random (draws w))" by (simp add: n_def)
    from loop_timer_run[OF assms(1) r' a' k']
    have body: "(\<forall>p. prefix p es \<longrightarrow> autoTimers (run random p w') = [n]) \<and>
                (ClickTriggerThunder \<notin> set es \<longrightarrow>
                   flashes (run random es w') = flashes w @ [due t]) \<or>
                (\<exists>es1 es2. es = es1 @ Fire # es2 \<and>
                   (\<forall>p. prefix p es1 \<longrightarrow> autoTimers (run random p w') = [n]) \<and>
                   earliest (timers (run random es1 w')) = Some n \<and>
                   flashes (run random (es1 @ [Fire]) w') =
                     flashes (run random es1 w') @ [due t + thunderDelay (random (draws w))] \<and>
                   (ClickTriggerThunder \<notin> set es1 \<longrightarrow>
                      flashes (run random es1 w') = flashes w @ [due t]))"
    proof (elim disjE exE conjE)
      assume 1: "\<forall>p. prefix p es \<longrightarrow> autoTimers (run random p w') = [n]"
        and 2: "ClickTriggerThunder \<notin> set es \<longrightarrow> flashes (run random es w') = flashes w'"
      have "ClickTriggerThunder \<notin> set es \<longrightarrow> flashes (run random es w') = flashes w @ [due t]"
        using 2 f' by simp
      then show ?thesis by (intro disjI1 conjI 1)
    next
      fix es1 es2
      assume 0: "es = es1 @ Fire # es2"
        and 1: "\<forall>p. prefix p es1 \<longrightarrow> autoTimers (run random p w') = [n]"
        and c: "ClickTriggerThunder \<notin> set es1 \<longrightarrow> flashes (run random es1 w') = flashes w'"
        and 3: "earliest (timers (run random es1 w')) = Some n"
        and l: "flashes (run random (es1 @ [Fire]) w') = flashes (run random es1 w') @ [due n]"
      have b: "ClickTriggerThunder \<notin> set es1 \<longrightarrow>
          flashes (run random es1 w') = flashes w @ [due t]"
        using c f' by simp
      have l': "flashes (run random (es1 @ [Fire]) w') =
          flashes (run random es1 w') @ [due t + thunderDelay (random (draws w))]"
        using l dn by simp
      show ?thesis by (intro disjI2 exI[of _ es1] exI[of _ es2] conjI 0 1 3 l' b)
    qed
    show ?thesis
      unfolding w'_def[symmetric] by (intro exI[of _ n] conjI a' dn) (rule body)
  qed
  show ?thesis
  proof (intro conjI, goal_cases)
    case 1
    show ?case by (rule p1[THEN conjunct1])
  next
    case 2
    show ?case by (rule p1[THEN conjunct2])
  next
    case 3
    show ?case by (intro impI) (rule p2)
  next
    case 4
    show ?case by (intro allI impI, elim conjE) (rule p3)
  next
    case 5
    show ?case by (intro allI impI, elim conjE) (rule p4)
  next
    case 6
    show ?case by (intro allI impI, elim conjE) (rule p5)
  qed
qed

theorem thunder_delay_and_gap_witness:
  "(\<forall>k. is_draw (halfDraws k)) \<and> reachable halfDraws stormWorld \<and>
   earliest (timers stormWorld) = Some \<lparr> tid = 1, due = 10000, act = AutoThunder False False 0 \<rparr> \<and>
   AutoThunder False False 0 \<noteq> ClearFlash \<and>
   thunderDelay (halfDraws (draws stormWorld)) = 10000 \<and>
   flashes (step halfDraws Fire stormWorld) = [10000] \<and>
   (\<exists>m wo ref. autoTimers (step halfDraws Fire stormWorld) =
      [\<lparr> tid = 3, due = 20000, act = AutoThunder m wo ref \<rparr>]) \<and>
   autoTimers stormWorld = [\<lparr> tid = 1, due = 10000, act = AutoThunder False False 0 \<rparr>] \<and>
   thunderKey (st (run halfDraws [Elapse 500] stormWorld)) = thunderKey (st stormWorld) \<and>
   thunderKey (st (run halfDraws [Elapse 500, ToggleControls] stormWorld))
     = thunderKey (st stormWorld) \<and>
   autoTimers (run halfDraws [Elapse 500, ToggleControls] stormWorld) =
     [\<lparr> tid = 1, due = 10000, act = AutoThunder False False 0 \<rparr>] \<and>
   flashes (run halfDraws [Elapse 500, ToggleControls] stormWorld) = [] \<and>
   ClickTriggerThunder \<notin> set [Elapse 1000, Fire, SelectSurface Metal, Fire] \<and>
   thunderKey (st (step halfDraws Fire stormWorld)) = thunderKey (st stormWorld) \<and>
   thunderKey (st (run halfDraws [Elapse 1000] (step halfDraws Fire stormWorld)))
     = thunderKey (st stormWorld) \<and>
   thunderKey (st (run halfDraws [Elapse 1000, Fire] (step halfDraws Fire stormWorld)))
     = thunderKey (st stormWorld) \<and>
   thunderKey (st (run halfDraws [Elapse 1000, Fire, SelectSurface Metal]
     (step halfDraws Fire stormWorld))) = thunderKey (st stormWorld) \<and>
   thunderKey (st (run halfDraws [Elapse 1000, Fire, SelectSurface Metal, Fire]
     (step halfDraws Fire stormWorld))) = thunderKey (st stormWorld) \<and>
   (\<exists>es1 es2. [Elapse 1000, Fire, SelectSurface Metal, Fire] = es1 @ Fire # es2 \<and>
      flashes (run halfDraws es1 (step halfDraws Fire stormWorld)) = [10000] \<and>
      flashes (run halfDraws (es1 @ [Fire]) (step halfDraws Fire stormWorld)) = [10000, 20000])"
proof -
  define t where "t = \<lparr> tid = 1, due = 10000, act = AutoThunder False False 0 \<rparr>"
  define es where "es = [Elapse 1000, Fire, SelectSurface Metal, Fire]"
  define fs where "fs = [Elapse 500, ToggleControls]"
  have e: "earliest (timers stormWorld) = Some t" unfolding t_def by code_simp
  have f: "flashes stormWorld = []" "nextTimer stormWorld = 2"
    "thunderDelay (halfDraws (draws stormWorld)) = 10000"
    by code_simp+
  have n: "act t \<noteq> ClearFlash" by (simp add: t_def)
  have m: "ClickTriggerThunder \<notin> set es" by (simp add: es_def)
  have dt: "due t = 10000" by (simp add: t_def)
  note th = thunder_delay_and_gap[OF halfDraws_draw stormWorld_reachable]
  have c3: "flashes (step halfDraws Fire stormWorld) = flashes stormWorld @ [due t] \<and>
     (\<exists>m wo ref. autoTimers (step halfDraws Fire stormWorld) =
        [\<lparr> tid = Suc (nextTimer stormWorld),
           due = due t + thunderDelay (halfDraws (draws stormWorld)),
           act = AutoThunder m wo ref \<rparr>])"
    using th[THEN conjunct2, THEN conjunct2, THEN conjunct2, THEN conjunct1, rule_format, of t] e n
    by simp
  have c3': "flashes (step halfDraws Fire stormWorld) = [10000] \<and>
     (\<exists>m wo ref. autoTimers (step halfDraws Fire stormWorld) =
        [\<lparr> tid = 3, due = 20000, act = AutoThunder m wo ref \<rparr>])"
    using c3 unfolding f dt by simp
  have a: "autoTimers stormWorld = [t]" unfolding t_def by code_simp
  have j: "thunderKey (st (run halfDraws [] stormWorld)) = thunderKey (st stormWorld)"
    "thunderKey (st (run halfDraws [Elapse 500] stormWorld)) = thunderKey (st stormWorld)"
    "thunderKey (st (run halfDraws [Elapse 500, ToggleControls] stormWorld))
       = thunderKey (st stormWorld)"
    by code_simp+
  have ja: "\<forall>p. prefix p fs \<longrightarrow>
      thunderKey (st (run halfDraws p stormWorld)) = thunderKey (st stormWorld)"
  proof (intro allI impI)
    fix p assume "prefix p fs"
    then have "p = [] \<or> p = [Elapse 500] \<or> p = [Elapse 500, ToggleControls]"
      by (auto simp: fs_def prefix_Cons)
    then show "thunderKey (st (run halfDraws p stormWorld)) = thunderKey (st stormWorld)"
      using j by (elim disjE) (simp_all only:)
  qed
  have nf: "fs \<noteq> es1 @ Fire # es2" for es1 es2
  proof
    assume "fs = es1 @ Fire # es2"
    then have "Fire \<in> set fs" by simp
    then show False by (simp add: fs_def)
  qed
  have "((\<forall>p. prefix p fs \<longrightarrow> autoTimers (run halfDraws p stormWorld) = [t]) \<and>
         (ClickTriggerThunder \<notin> set fs \<longrightarrow>
            flashes (run halfDraws fs stormWorld) = flashes stormWorld)) \<or>
        (\<exists>es1 es2. fs = es1 @ Fire # es2 \<and>
           (\<forall>p. prefix p es1 \<longrightarrow> autoTimers (run halfDraws p stormWorld) = [t]) \<and>
           (ClickTriggerThunder \<notin> set es1 \<longrightarrow>
              flashes (run halfDraws es1 stormWorld) = flashes stormWorld) \<and>
           earliest (timers (run halfDraws es1 stormWorld)) = Some t \<and>
           flashes (run halfDraws (es1 @ [Fire]) stormWorld) =
             flashes (run halfDraws es1 stormWorld) @ [due t])"
    by (rule th[THEN conjunct2, THEN conjunct2, THEN conjunct2, THEN conjunct2, THEN conjunct1,
          rule_format, of t fs]) (intro conjI a ja)
  then have "(\<forall>p. prefix p fs \<longrightarrow> autoTimers (run halfDraws p stormWorld) = [t]) \<and>
         (ClickTriggerThunder \<notin> set fs \<longrightarrow>
            flashes (run halfDraws fs stormWorld) = flashes stormWorld)"
    using nf by blast
  then have c4: "autoTimers (run halfDraws fs stormWorld) = [t]"
    "flashes (run halfDraws fs stormWorld) = []"
    by (simp_all add: f(1)) (simp add: fs_def)
  have k: "thunderKey (st (run halfDraws [] (step halfDraws Fire stormWorld)))
       = thunderKey (st stormWorld)"
    "thunderKey (st (run halfDraws [Elapse 1000] (step halfDraws Fire stormWorld)))
       = thunderKey (st stormWorld)"
    "thunderKey (st (run halfDraws [Elapse 1000, Fire] (step halfDraws Fire stormWorld)))
       = thunderKey (st stormWorld)"
    "thunderKey (st (run halfDraws [Elapse 1000, Fire, SelectSurface Metal]
       (step halfDraws Fire stormWorld))) = thunderKey (st stormWorld)"
    "thunderKey (st (run halfDraws [Elapse 1000, Fire, SelectSurface Metal, Fire]
       (step halfDraws Fire stormWorld))) = thunderKey (st stormWorld)"
    by code_simp+
  have ka: "\<forall>p. prefix p es \<longrightarrow>
      thunderKey (st (run halfDraws p (step halfDraws Fire stormWorld)))
        = thunderKey (st stormWorld)"
  proof (intro allI impI)
    fix p assume "prefix p es"
    then have "p = [] \<or> p = [Elapse 1000] \<or> p = [Elapse 1000, Fire] \<or>
        p = [Elapse 1000, Fire, SelectSurface Metal] \<or>
        p = [Elapse 1000, Fire, SelectSurface Metal, Fire]"
      by (auto simp: es_def prefix_Cons)
    then show "thunderKey (st (run halfDraws p (step halfDraws Fire stormWorld)))
        = thunderKey (st stormWorld)"
      using k by (elim disjE) (simp_all only:)
  qed
  have "\<exists>n. autoTimers (step halfDraws Fire stormWorld) = [n] \<and>
      due n = due t + thunderDelay (halfDraws (draws stormWorld)) \<and>
      ((\<forall>p. prefix p es \<longrightarrow> autoTimers (run halfDraws p (step halfDraws Fire stormWorld)) = [n]) \<and>
       (ClickTriggerThunder \<notin> set es \<longrightarrow>
          flashes (run halfDraws es (step halfDraws Fire stormWorld)) = flashes stormWorld @ [due t]) \<or>
       (\<exists>es1 es2. es = es1 @ Fire # es2 \<and>
          (\<forall>p. prefix p es1 \<longrightarrow>
             autoTimers (run halfDraws p (step halfDraws Fire stormWorld)) = [n]) \<and>
          earliest (timers (run halfDraws es1 (step halfDraws Fire stormWorld))) = Some n \<and>
          flashes (run halfDraws (es1 @ [Fire]) (step halfDraws Fire stormWorld)) =
            flashes (run halfDraws es1 (step halfDraws Fire stormWorld)) @
              [due t + thunderDelay (halfDraws (draws stormWorld))] \<and>
          (ClickTriggerThunder \<notin> set es1 \<longrightarrow>
             flashes (run halfDraws es1 (step halfDraws Fire stormWorld)) =
               flashes stormWorld @ [due t])))"
    by (rule th[THEN conjunct2, THEN conjunct2, THEN conjunct2, THEN conjunct2, THEN conjunct2,
          rule_format, of t es]) (intro conjI e n ka)
  then have c5: "flashes (run halfDraws es (step halfDraws Fire stormWorld)) = [10000] \<or>
      (\<exists>es1 es2. es = es1 @ Fire # es2 \<and>
         flashes (run halfDraws (es1 @ [Fire]) (step halfDraws Fire stormWorld)) =
           flashes (run halfDraws es1 (step halfDraws Fire stormWorld)) @ [20000] \<and>
         (ClickTriggerThunder \<notin> set es1 \<longrightarrow>
            flashes (run halfDraws es1 (step halfDraws Fire stormWorld)) = [10000]))"
    unfolding f dt using m by auto
  have ne: "flashes (run halfDraws es (step halfDraws Fire stormWorld)) \<noteq> [10000]"
    unfolding es_def by code_simp
  from c5 ne obtain es1 es2 where s: "es = es1 @ Fire # es2"
    "flashes (run halfDraws (es1 @ [Fire]) (step halfDraws Fire stormWorld)) =
       flashes (run halfDraws es1 (step halfDraws Fire stormWorld)) @ [20000]"
    "ClickTriggerThunder \<notin> set es1 \<longrightarrow>
       flashes (run halfDraws es1 (step halfDraws Fire stormWorld)) = [10000]"
    by blast
  have "ClickTriggerThunder \<notin> set es1" using m s(1) by simp
  then have "flashes (run halfDraws es1 (step halfDraws Fire stormWorld)) = [10000]"
    "flashes (run halfDraws (es1 @ [Fire]) (step halfDraws Fire stormWorld)) = [10000, 20000]"
    using s(2,3) by simp_all
  then have c5': "\<exists>es1 es2. es = es1 @ Fire # es2 \<and>
      flashes (run halfDraws es1 (step halfDraws Fire stormWorld)) = [10000] \<and>
      flashes (run halfDraws (es1 @ [Fire]) (step halfDraws Fire stormWorld)) = [10000, 20000]"
    using s(1) by blast
  have e': "earliest (timers stormWorld) =
      Some \<lparr> tid = 1, due = 10000, act = AutoThunder False False 0 \<rparr>"
    using e by (simp only: t_def)
  have k0: "thunderKey (st (step halfDraws Fire stormWorld)) = thunderKey (st stormWorld)"
    using k(1) by (simp only: run.simps)
  show ?thesis
    using c5'[unfolded es_def] c3' m[unfolded es_def]
    by (intro conjI halfDraws_draw stormWorld_reachable e' f(3) k0 k(2-5) j(2,3)
        a[unfolded t_def] c4[unfolded fs_def t_def]) simp_all
qed

end
